theory Spec2Isabelle
  imports Complex_Main "HOL-Library.Stream"
begin

section \<open>JavaScript numbers\<close>

text \<open>
  The script computes with JavaScript numbers. A number is modelled as one of the three
  special values \<open>NaN\<close>, \<open>Infinity\<close>, \<open>-Infinity\<close>, or a finite value carried as a real.
  The operations below follow the language on the special values (division by zero, the
  square root and logarithm of a negative number, comparisons with \<open>NaN\<close>); on finite
  values they are the exact real operations, and the sign of zero is not modelled. The
  density \<open>normalPDF\<close>, whose properties compare computed values with \<open>==\<close>, rounds the
  result of every operation to binary64 (with overflow and underflow).
\<close>

datatype number = NaN | PosInfinity | NegInfinity | Num real

fun isNaN :: "number \<Rightarrow> bool" where
  "isNaN NaN = True"
| "isNaN _ = False"

fun num_neg :: "number \<Rightarrow> number" where
  "num_neg NaN = NaN"
| "num_neg PosInfinity = NegInfinity"
| "num_neg NegInfinity = PosInfinity"
| "num_neg (Num a) = Num (- a)"

fun num_add :: "number \<Rightarrow> number \<Rightarrow> number" where
  "num_add NaN _ = NaN"
| "num_add _ NaN = NaN"
| "num_add PosInfinity NegInfinity = NaN"
| "num_add NegInfinity PosInfinity = NaN"
| "num_add PosInfinity _ = PosInfinity"
| "num_add _ PosInfinity = PosInfinity"
| "num_add NegInfinity _ = NegInfinity"
| "num_add _ NegInfinity = NegInfinity"
| "num_add (Num a) (Num b) = Num (a + b)"

definition num_sub :: "number \<Rightarrow> number \<Rightarrow> number" where
  "num_sub a b = num_add a (num_neg b)"

text \<open>The sign of an infinity multiplied or divided by a finite value \<open>b\<close>.\<close>

definition signed_inf :: "bool \<Rightarrow> number" where
  "signed_inf positive = (if positive then PosInfinity else NegInfinity)"

fun num_mul :: "number \<Rightarrow> number \<Rightarrow> number" where
  "num_mul NaN _ = NaN"
| "num_mul _ NaN = NaN"
| "num_mul PosInfinity PosInfinity = PosInfinity"
| "num_mul PosInfinity NegInfinity = NegInfinity"
| "num_mul NegInfinity PosInfinity = NegInfinity"
| "num_mul NegInfinity NegInfinity = PosInfinity"
| "num_mul PosInfinity (Num b) = (if b = 0 then NaN else signed_inf (0 < b))"
| "num_mul NegInfinity (Num b) = (if b = 0 then NaN else signed_inf (b < 0))"
| "num_mul (Num a) PosInfinity = (if a = 0 then NaN else signed_inf (0 < a))"
| "num_mul (Num a) NegInfinity = (if a = 0 then NaN else signed_inf (a < 0))"
| "num_mul (Num a) (Num b) = Num (a * b)"

text \<open>
  Division: a finite nonzero value over zero is an infinity, zero over zero is \<open>NaN\<close>.
  Zero is taken as \<open>+0\<close>.
\<close>

fun num_div :: "number \<Rightarrow> number \<Rightarrow> number" where
  "num_div NaN _ = NaN"
| "num_div _ NaN = NaN"
| "num_div PosInfinity (Num b) = signed_inf (0 \<le> b)"
| "num_div NegInfinity (Num b) = signed_inf (b < 0)"
| "num_div (Num a) (Num b) =
     (if b = 0 then (if a = 0 then NaN else signed_inf (0 < a)) else Num (a / b))"
| "num_div (Num a) _ = Num 0"
| "num_div _ _ = NaN"

text \<open>Comparisons: every comparison with \<open>NaN\<close> is false.\<close>

fun num_lt :: "number \<Rightarrow> number \<Rightarrow> bool" where
  "num_lt NaN _ = False"
| "num_lt _ NaN = False"
| "num_lt _ NegInfinity = False"
| "num_lt NegInfinity _ = True"
| "num_lt PosInfinity _ = False"
| "num_lt _ PosInfinity = True"
| "num_lt (Num a) (Num b) = (a < b)"

definition num_gt :: "number \<Rightarrow> number \<Rightarrow> bool" where
  "num_gt a b = num_lt b a"

definition strict_eq :: "number \<Rightarrow> number \<Rightarrow> bool" where
  "strict_eq a b = (\<not> isNaN a \<and> \<not> isNaN b \<and> a = b)"

definition num_ge :: "number \<Rightarrow> number \<Rightarrow> bool" where
  "num_ge a b = (num_lt b a \<or> strict_eq a b)"

subsection \<open>The Math object\<close>

definition Math_PI :: number where
  "Math_PI = Num pi"

fun Math_sqrt :: "number \<Rightarrow> number" where
  "Math_sqrt NaN = NaN"
| "Math_sqrt PosInfinity = PosInfinity"
| "Math_sqrt NegInfinity = NaN"
| "Math_sqrt (Num a) = (if a < 0 then NaN else Num (sqrt a))"

fun Math_log :: "number \<Rightarrow> number" where
  "Math_log NaN = NaN"
| "Math_log PosInfinity = PosInfinity"
| "Math_log NegInfinity = NaN"
| "Math_log (Num a) = (if a < 0 then NaN else if a = 0 then NegInfinity else Num (ln a))"

fun Math_exp :: "number \<Rightarrow> number" where
  "Math_exp NaN = NaN"
| "Math_exp PosInfinity = PosInfinity"
| "Math_exp NegInfinity = Num 0"
| "Math_exp (Num a) = Num (exp a)"

fun Math_cos :: "number \<Rightarrow> number" where
  "Math_cos (Num a) = Num (cos a)"
| "Math_cos _ = NaN"

fun Math_sin :: "number \<Rightarrow> number" where
  "Math_sin (Num a) = Num (sin a)"
| "Math_sin _ = NaN"

fun Math_floor :: "number \<Rightarrow> number" where
  "Math_floor (Num a) = Num (of_int \<lfloor>a\<rfloor>)"
| "Math_floor x = x"

text \<open>\<open>Math.pow\<close> for an exponent that is a natural number (the script's is 2).\<close>

fun Math_pow :: "number \<Rightarrow> nat \<Rightarrow> number" where
  "Math_pow x 0 = Num 1"
| "Math_pow NaN k = NaN"
| "Math_pow PosInfinity k = PosInfinity"
| "Math_pow NegInfinity k = signed_inf (even k)"
| "Math_pow (Num a) k = Num (a ^ k)"

subsection \<open>Rounding to binary64\<close>

text \<open>
  Round to nearest, ties to even, with 53 significant bits and the least exponent
  \<open>-1022\<close>: \<open>ulp64 x\<close> is the spacing of the doubles around \<open>x\<close> (\<open>2 ^ (-1074)\<close> in the
  subnormal range), and \<open>x\<close> is rounded to the nearest multiple of it. A result of
  magnitude \<open>2 ^ 1024\<close> or more is an infinity.
\<close>

definition round_half_even :: "real \<Rightarrow> int" where
  "round_half_even q =
     (let f = \<lfloor>q\<rfloor>; r = q - of_int f
      in if r < 1/2 then f else if 1/2 < r then f + 1 else if even f then f else f + 1)"

definition exponent64 :: "real \<Rightarrow> int" where
  "exponent64 x = max \<lfloor>log 2 \<bar>x\<bar>\<rfloor> (- 1022)"

definition ulp64 :: "real \<Rightarrow> real" where
  "ulp64 x = 2 powr (of_int (exponent64 x) - 52)"

definition round64_real :: "real \<Rightarrow> real" where
  "round64_real x = (if x = 0 then 0 else of_int (round_half_even (x / ulp64 x)) * ulp64 x)"

fun round64 :: "number \<Rightarrow> number" where
  "round64 (Num x) =
     (if 2 ^ 1024 \<le> \<bar>round64_real x\<bar> then signed_inf (0 < x) else Num (round64_real x))"
| "round64 v = v"

text \<open>
  The operations as binary64 computes them: the exact result, rounded. \<open>Math.sqrt\<close> and
  the four arithmetic operations are correctly rounded; \<open>Math.exp\<close> and \<open>Math.pow\<close>,
  whose accuracy the language leaves to the implementation, are taken as correctly
  rounded too.
\<close>

definition fl_add :: "number \<Rightarrow> number \<Rightarrow> number" where
  "fl_add a b = round64 (num_add a b)"

definition fl_sub :: "number \<Rightarrow> number \<Rightarrow> number" where
  "fl_sub a b = round64 (num_sub a b)"

definition fl_mul :: "number \<Rightarrow> number \<Rightarrow> number" where
  "fl_mul a b = round64 (num_mul a b)"

definition fl_div :: "number \<Rightarrow> number \<Rightarrow> number" where
  "fl_div a b = round64 (num_div a b)"

definition fl_sqrt :: "number \<Rightarrow> number" where
  "fl_sqrt a = round64 (Math_sqrt a)"

definition fl_exp :: "number \<Rightarrow> number" where
  "fl_exp a = round64 (Math_exp a)"

definition fl_pow :: "number \<Rightarrow> nat \<Rightarrow> number" where
  "fl_pow a k = round64 (Math_pow a k)"

section \<open>The normal density\<close>

text \<open>
  \<open>Math_PI\<close> is \<open>\<pi>\<close>; the script uses it in \<open>2 * Math.PI\<close> only, and that product, which
  binary64 computes without error from the double nearest \<open>\<pi>\<close>, is \<open>2\<pi>\<close> rounded.
\<close>

definition normalPDF :: "number \<Rightarrow> number \<Rightarrow> number \<Rightarrow> number" where
  "normalPDF x mu sigma =
     (let sigmaSq = fl_mul sigma sigma;
          invSqrt2PiSigmaSq =
            fl_div (Num 1) (fl_sqrt (fl_mul (fl_mul (Num 2) Math_PI) sigmaSq))
      in fl_mul invSqrt2PiSigmaSq
           (fl_exp (fl_mul (Num (- 0.5)) (fl_pow (fl_div (fl_sub x mu) sigma) 2))))"


text \<open>
  The two factors of the product \<open>normalPDF\<close> returns.
\<close>

definition inv_factor :: "number \<Rightarrow> number" where
  "inv_factor sigma =
     fl_div (Num 1) (fl_sqrt (fl_mul (fl_mul (Num 2) Math_PI) (fl_mul sigma sigma)))"

definition exp_factor :: "number \<Rightarrow> number \<Rightarrow> number \<Rightarrow> number" where
  "exp_factor x mu sigma =
     fl_exp (fl_mul (Num (- 0.5)) (fl_pow (fl_div (fl_sub x mu) sigma) 2))"

section \<open>The Box-Muller generator\<close>

text \<open>
  The generator's two module-level variables and the ambient uniform source. \<open>Math_random\<close>
  is the sequence of values the coming calls of \<open>Math.random()\<close> return (finite numbers);
  a call takes the head and leaves the tail.
\<close>

record gen_state =
  hasSecondBoxMuller :: bool
  secondBoxMullerValue :: number
  Math_random :: "real stream"

text \<open>
  The loop \<open>do { u1 = Math.random(); } while (u1 === 0)\<close>. It returns the value drawn last
  and the source after it; \<open>None\<close> is the loop that never ends.
\<close>

partial_function (option) draw_u1 :: "real stream \<Rightarrow> (real \<times> real stream) option" where
  "draw_u1 s = (if strict_eq (Num (shd s)) (Num 0) then draw_u1 (stl s) else Some (shd s, stl s))"

definition generateStandardNormal :: "gen_state \<Rightarrow> (number \<times> gen_state) option" where
  "generateStandardNormal st =
     (if hasSecondBoxMuller st
      then Some (secondBoxMullerValue st, st\<lparr>hasSecondBoxMuller := False\<rparr>)
      else case draw_u1 (Math_random st) of
        None \<Rightarrow> None
      | Some (u1, s1) \<Rightarrow>
          let u2 = shd s1;
              R = Math_sqrt (num_mul (Num (- 2.0)) (Math_log (Num u1)));
              theta = num_mul (num_mul (Num 2.0) Math_PI) (Num u2);
              z1 = num_mul R (Math_cos theta)
          in Some (z1, \<lparr>hasSecondBoxMuller = True,
                         secondBoxMullerValue = num_mul R (Math_sin theta),
                         Math_random = stl s1\<rparr>))"

section \<open>Simulation of one path\<close>

record sim_result =
  path_values :: "number list"
  final_value :: number

text \<open>
  The \<open>for\<close> loop of \<open>simulateBrownianMotion\<close>, with its variables \<open>i\<close>, \<open>current_value\<close>
  and \<open>path_values\<close> as arguments. The step count \<open>n\<close> is an integer (the caller passes the
  result of \<open>parseInt\<close>).
\<close>

function simulate_loop ::
  "int \<Rightarrow> int \<Rightarrow> number \<Rightarrow> number \<Rightarrow> number list \<Rightarrow> gen_state
    \<Rightarrow> (sim_result \<times> gen_state) option" where
  "simulate_loop i n sqrt_dt current_value pvalues st =
     (if i < n then
        (case generateStandardNormal st of
           None \<Rightarrow> None
         | Some (Z, st') \<Rightarrow>
             let jump = num_mul sqrt_dt Z;
                 current_value' = num_add current_value jump
             in simulate_loop (i + 1) n sqrt_dt current_value' (pvalues @ [current_value']) st')
      else Some (\<lparr>path_values = pvalues, final_value = current_value\<rparr>, st))"
  by pat_completeness auto
termination
  by (relation "measure (\<lambda>(i, n, _). nat (n - i))") auto

definition simulateBrownianMotion ::
  "number \<Rightarrow> int \<Rightarrow> gen_state \<Rightarrow> (sim_result \<times> gen_state) option" where
  "simulateBrownianMotion T n st =
     (let dt = num_div T (Num (of_int n));
          sqrt_dt = Math_sqrt dt
      in simulate_loop 0 n sqrt_dt (Num 0) [] st)"

text \<open>
  The values \<open>k\<close> successive calls of the generator return, in order: the \<open>Z\<close> of the
  \<open>k\<close> iterations of a path.
\<close>

fun normals :: "nat \<Rightarrow> gen_state \<Rightarrow> (number list \<times> gen_state) option" where
  "normals 0 st = Some ([], st)"
| "normals (Suc k) st =
     (case generateStandardNormal st of
        None \<Rightarrow> None
      | Some (z, st') \<Rightarrow>
          (case normals k st' of
             None \<Rightarrow> None
           | Some (zs, st'') \<Rightarrow> Some (z # zs, st'')))"

section \<open>The final distribution\<close>

text \<open>
  The bin of one terminal value: the floor of its offset in bin widths, brought back to
  \<open>bins - 1\<close> from above and to \<open>0\<close> from below.
\<close>

definition bin_index :: "nat \<Rightarrow> number \<Rightarrow> number \<Rightarrow> number \<Rightarrow> number" where
  "bin_index bins val min_val binWidth =
     (let binIndex = Math_floor (num_div (num_sub val min_val) binWidth);
          binIndex = (if num_ge binIndex (Num (real bins)) then Num (real bins - 1) else binIndex);
          binIndex = (if num_lt binIndex (Num 0) then Num 0 else binIndex)
      in binIndex)"

text \<open>
  \<open>histogram[binIndex]++\<close>. The counts are the elements of the array. A key that is not
  the index of an element names a property of the array object beside its elements, and
  the elements stay as they are; \<open>NaN\<close> is the only such key the script produces
  (\<open>bin_index_cases\<close>).
\<close>

fun array_incr :: "nat list \<Rightarrow> number \<Rightarrow> nat list" where
  "array_incr h (Num r) =
     (if r = of_int \<lfloor>r\<rfloor> \<and> 0 \<le> r \<and> nat \<lfloor>r\<rfloor> < length h
      then h[nat \<lfloor>r\<rfloor> := h ! nat \<lfloor>r\<rfloor> + 1] else h)"
| "array_incr h _ = h"

text \<open>
  What \<open>renderFinalDistribution\<close> computes and hands to the chart: the counts and the two
  density series (the labels, the bin centers printed with two decimals, are left out).
\<close>

record distribution =
  histogram :: "nat list"
  observed_densities :: "number list"
  theoretical_densities :: "number list"

definition renderFinalDistribution ::
  "number \<Rightarrow> int \<Rightarrow> number list \<Rightarrow> number \<Rightarrow> number \<Rightarrow> distribution" where
  "renderFinalDistribution T m_runs final_values min_val max_val =
     (let mu = Num 0;
          sigma = Math_sqrt T;
          bins = 20;
          range' = num_sub max_val min_val;
          binWidth = num_div range' (Num (real bins));
          h = foldl (\<lambda>h val. array_incr h (bin_index bins val min_val binWidth))
                (replicate bins 0) final_values;
          binCenter = (\<lambda>i. num_add min_val (num_mul (Num (real i + 0.5)) binWidth))
      in \<lparr>histogram = h,
          observed_densities =
            map (\<lambda>i. num_div (num_div (Num (real (h ! i))) (Num (of_int m_runs))) binWidth)
              [0..<bins],
          theoretical_densities = map (\<lambda>i. normalPDF (binCenter i) mu sigma) [0..<bins]\<rparr>)"

section \<open>The main function\<close>

text \<open>
  The loop of \<open>runSimulation\<close> that simulates \<open>m_runs\<close> paths and keeps their terminal
  values with the running minimum and maximum.
\<close>

function ensemble_loop ::
  "int \<Rightarrow> int \<Rightarrow> number \<Rightarrow> int \<Rightarrow> number list \<Rightarrow> number \<Rightarrow> number \<Rightarrow> gen_state
    \<Rightarrow> ((number list \<times> number \<times> number) \<times> gen_state) option" where
  "ensemble_loop i m_runs T n final_values min_val max_val st =
     (if i < m_runs then
        (case simulateBrownianMotion T n st of
           None \<Rightarrow> None
         | Some (result, st') \<Rightarrow>
             let final_x = final_value result;
                 min_val' = (if num_lt final_x min_val then final_x else min_val);
                 max_val' = (if num_gt final_x max_val then final_x else max_val)
             in ensemble_loop (i + 1) m_runs T n (final_values @ [final_x]) min_val' max_val' st')
      else Some ((final_values, min_val, max_val), st))"
  by pat_completeness auto
termination
  by (relation "measure (\<lambda>(i, m_runs, _). nat (m_runs - i))") auto

definition alert_text :: string where
  "alert_text = ''Please enter valid parameters. T must be > 0, n and m must be large enough.''"

text \<open>
  The outcome of \<open>runSimulation\<close>: the alert, or the data given to the two charts.
\<close>

datatype outcome = Alert string | Rendered "number list" distribution

text \<open>
  \<open>T\<close> is the result of \<open>parseFloat\<close>; \<open>n\<close> and \<open>m_runs\<close> are results of \<open>parseInt\<close>,
  an integer or \<open>NaN\<close> (\<open>None\<close>).
\<close>

definition runSimulation ::
  "number \<Rightarrow> int option \<Rightarrow> int option \<Rightarrow> gen_state \<Rightarrow> (outcome \<times> gen_state) option" where
  "runSimulation T n m_runs st =
     (case (n, m_runs) of
        (Some n', Some m') \<Rightarrow>
          if isNaN T \<or> n' < 100 \<or> m' < 100 then Some (Alert alert_text, st)
          else
            (case simulateBrownianMotion T n' st of
               None \<Rightarrow> None
             | Some (single_run_data, st1) \<Rightarrow>
                 (case ensemble_loop 0 m' T n' [] PosInfinity NegInfinity st1 of
                    None \<Rightarrow> None
                  | Some ((final_values, min_val, max_val), st2) \<Rightarrow>
                      Some (Rendered (path_values single_run_data)
                              (renderFinalDistribution T m' final_values min_val max_val), st2)))
      | _ \<Rightarrow> Some (Alert alert_text, st))"

section \<open>The path invariant and the reachable states\<close>

text \<open>
  The path invariant in the spec's words, for comparison with the loop: each position is
  the one before it plus \<open>sqrt_dt\<close> times the next variate, starting after \<open>prev\<close>.
\<close>

fun positions :: "number \<Rightarrow> number \<Rightarrow> number list \<Rightarrow> number list" where
  "positions sqrt_dt prev [] = []"
| "positions sqrt_dt prev (z # zs) =
     num_add prev (num_mul sqrt_dt z) # positions sqrt_dt (num_add prev (num_mul sqrt_dt z)) zs"

text \<open>
  The states the script reaches: a cached value is finite, \<open>Math.random()\<close> returns
  values in \<open>[0, 1)\<close>, and it returns a nonzero value again and again.
\<close>

fun is_finite :: "number \<Rightarrow> bool" where
  "is_finite (Num a) = True"
| "is_finite _ = False"

definition recurring_nonzero :: "real stream \<Rightarrow> bool" where
  "recurring_nonzero s = (\<forall>k. \<exists>j. k \<le> j \<and> s !! j \<noteq> 0)"

definition unit_interval :: "real stream \<Rightarrow> bool" where
  "unit_interval s = (\<forall>k. 0 \<le> s !! k \<and> s !! k < 1)"

definition valid_state :: "gen_state \<Rightarrow> bool" where
  "valid_state st =
     ((hasSecondBoxMuller st \<longrightarrow> is_finite (secondBoxMullerValue st))
      \<and> unit_interval (Math_random st) \<and> recurring_nonzero (Math_random st))"

section \<open>Example states\<close>

definition st_cached :: gen_state where
  "st_cached = \<lparr>hasSecondBoxMuller = True, secondBoxMullerValue = Num 3, Math_random = sconst (1/2)\<rparr>"

definition st_fresh :: gen_state where
  "st_fresh = \<lparr>hasSecondBoxMuller = False, secondBoxMullerValue = Num 0, Math_random = 0 ## (1/2) ## sconst (1/4)\<rparr>"

text \<open>
  A generator with no cached value whose source yields 0 twice before it yields one half.
\<close>

definition st_zero_draws :: gen_state where
  "st_zero_draws = \<lparr>hasSecondBoxMuller = False, secondBoxMullerValue = Num 0,
                     Math_random = 0 ## 0 ## sconst (1/2)\<rparr>"

text \<open>
  The generator as the script starts it, on a source that always yields one half, and
  the ensemble of a hundred terminal values that are all 0.
\<close>

definition st_initial :: gen_state where
  "st_initial = \<lparr>hasSecondBoxMuller = False, secondBoxMullerValue = Num 0,
                  Math_random = sconst (1/2)\<rparr>"

definition zero_ensemble :: "number list" where
  "zero_ensemble = replicate 100 (Num 0)"

text \<open>
  Arguments at which the density's arithmetic leaves the reals: a \<open>sigma\<close> whose square
  underflows, and a \<open>mu\<close> at which adding 1 is lost to rounding.
\<close>

definition tiny_sigma :: real where
  "tiny_sigma = 1 / 2 ^ 600"

definition big_mu :: real where
  "big_mu = 2 ^ 53"

section \<open>Properties of the numbers\<close>

lemma Math_pow_Num [simp]: "Math_pow (Num a) k = Num (a ^ k)"
  by (cases k) simp_all

lemma strict_eq_Num [simp]: "strict_eq (Num a) (Num b) = (a = b)"
  by (simp add: strict_eq_def)

section \<open>Properties of rounding\<close>

lemma round_half_even_of_int [simp]: "round_half_even (of_int n) = n"
  by (simp add: round_half_even_def)

lemma round_half_even_near: "\<bar>of_int (round_half_even q) - q\<bar> \<le> 1/2"
  unfolding round_half_even_def Let_def
  by (auto simp: abs_le_iff)

lemma round_half_even_neg: "round_half_even (- q) = - round_half_even q"
proof (cases "q = of_int \<lfloor>q\<rfloor>")
  case True
  then obtain n where "q = of_int n" by metis
  hence "- q = of_int (- n)" by simp
  thus ?thesis using \<open>q = of_int n\<close> by (simp only: round_half_even_of_int)
next
  case False
  hence fl: "\<lfloor>- q\<rfloor> = - \<lfloor>q\<rfloor> - 1"
    by (simp add: floor_eq_iff) linarith
  show ?thesis
    unfolding round_half_even_def Let_def fl
    by (auto simp: algebra_simps)
qed

lemma round_half_even_mono:
  assumes "q \<le> q'"
  shows "round_half_even q \<le> round_half_even q'"
proof (rule ccontr)
  assume "\<not> ?thesis"
  hence gt: "round_half_even q' + 1 \<le> round_half_even q" by simp
  hence "real_of_int (round_half_even q') + 1 \<le> of_int (round_half_even q)"
    by linarith
  with round_half_even_near [of q] round_half_even_near [of q'] assms
  have "q = q'" by (simp add: abs_le_iff) 
  with gt show False by simp
qed


lemma exponent64_minus [simp]: "exponent64 (- x) = exponent64 x"
  by (simp add: exponent64_def)

lemma exponent64_ge: "- 1022 \<le> exponent64 x"
  by (simp add: exponent64_def)

lemma ulp64_minus [simp]: "ulp64 (- x) = ulp64 x"
  by (simp add: ulp64_def)

lemma ulp64_pos: "0 < ulp64 x"
  by (simp add: ulp64_def)

lemma round64_real_minus: "round64_real (- x) = - round64_real x"
  by (simp add: round64_real_def round_half_even_neg)

lemma round64_real_0 [simp]: "round64_real 0 = 0"
  by (simp add: round64_real_def)

lemma exponent64_upper:
  assumes "0 < x"
  shows "x < 2 powr (of_int (exponent64 x) + 1)"
proof -
  define k where "k = \<lfloor>log 2 x\<rfloor>"
  have "2 powr of_int k \<le> x \<and> x < 2 powr (of_int k + 1)"
    using floor_log_eq_powr_iff [of x 2 k] assms by (simp add: k_def)
  moreover have "k \<le> exponent64 x" using assms by (simp add: exponent64_def k_def)
  hence "2 powr (of_int k + 1) \<le> (2::real) powr (of_int (exponent64 x) + 1)" by simp
  ultimately show ?thesis by linarith
qed

lemma exponent64_lower:
  assumes "0 < x" "- 1022 < exponent64 x"
  shows "2 powr of_int (exponent64 x) \<le> x"
proof -
  define k where "k = \<lfloor>log 2 x\<rfloor>"
  have "2 powr of_int k \<le> x \<and> x < 2 powr (of_int k + 1)"
    using floor_log_eq_powr_iff [of x 2 k] assms by (simp add: k_def)
  moreover have "exponent64 x = k" using assms by (simp add: exponent64_def k_def)
  ultimately show ?thesis by simp
qed

lemma exponent64_eqI:
  assumes "0 < x" "- 1022 \<le> E" "x < 2 powr (of_int E + 1)" "E = - 1022 \<or> 2 powr of_int E \<le> x"
  shows "exponent64 x = E"
proof (cases "2 powr of_int E \<le> x")
  case True
  hence "\<lfloor>log 2 x\<rfloor> = E"
    using floor_log_eq_powr_iff [of x 2 E] assms(1,3) by simp
  thus ?thesis using assms(1,2) by (simp add: exponent64_def)
next
  case False
  with assms(4) have E: "E = - 1022" by simp
  define k where "k = \<lfloor>log 2 x\<rfloor>"
  have "2 powr of_int k \<le> x"
    using floor_log_eq_powr_iff [of x 2 k] assms(1) by (simp add: k_def)
  with False have "2 powr of_int k < (2::real) powr of_int E" by linarith
  hence "k < E" by simp
  thus ?thesis using assms(1) E by (simp add: exponent64_def k_def)
qed

lemma exponent64_mono:
  assumes "0 < x" "x \<le> y"
  shows "exponent64 x \<le> exponent64 y"
proof -
  have "log 2 x \<le> log 2 y" using assms by simp
  hence "\<lfloor>log 2 x\<rfloor> \<le> \<lfloor>log 2 y\<rfloor>" by (rule floor_mono)
  thus ?thesis using assms by (simp add: exponent64_def)
qed

lemma ulp64_scale: "2 powr (of_int (exponent64 x) + 1) = 2 ^ 53 * ulp64 x"
proof -
  have "of_int (exponent64 x) + 1 = (real_of_int (exponent64 x) - 52) + 53" by simp
  hence "2 powr (of_int (exponent64 x) + 1) = (2::real) powr ((of_int (exponent64 x) - 52) + 53)"
    by (rule arg_cong)
  also have "\<dots> = 2 powr (of_int (exponent64 x) - 52) * 2 powr 53"
    by (rule powr_add)
  finally show ?thesis by (simp add: ulp64_def)
qed

lemma ulp64_scale': "2 powr of_int (exponent64 x) = 2 ^ 52 * ulp64 x"
proof -
  have "of_int (exponent64 x) = (real_of_int (exponent64 x) - 52) + 52" by simp
  hence "2 powr of_int (exponent64 x) = (2::real) powr ((of_int (exponent64 x) - 52) + 52)"
    by (rule arg_cong)
  also have "\<dots> = 2 powr (of_int (exponent64 x) - 52) * 2 powr 52"
    by (rule powr_add)
  finally show ?thesis by (simp add: ulp64_def)
qed

lemma round64_real_upper:
  assumes "0 < x"
  shows "round64_real x \<le> 2 powr (of_int (exponent64 x) + 1)"
proof -
  have "x / ulp64 x < 2 ^ 53"
    using exponent64_upper [OF assms] ulp64_pos [of x]
    by (simp add: pos_divide_less_eq ulp64_scale)
  hence "x / ulp64 x \<le> of_int (2 ^ 53)" by simp
  hence "round_half_even (x / ulp64 x) \<le> round_half_even (of_int (2 ^ 53))"
    by (rule round_half_even_mono)
  hence "round_half_even (x / ulp64 x) \<le> 2 ^ 53" by (simp only: round_half_even_of_int)
  hence "real_of_int (round_half_even (x / ulp64 x)) \<le> of_int (2 ^ 53)"
    by (simp only: of_int_le_iff)
  hence "real_of_int (round_half_even (x / ulp64 x)) \<le> 2 ^ 53" by simp
  hence "of_int (round_half_even (x / ulp64 x)) * ulp64 x \<le> 2 ^ 53 * ulp64 x"
    using ulp64_pos [of x] by (simp add: mult_right_mono)
  thus ?thesis using assms by (simp add: round64_real_def ulp64_scale)
qed

lemma round64_real_lower:
  assumes "0 < x" "- 1022 < exponent64 x"
  shows "2 powr of_int (exponent64 x) \<le> round64_real x"
proof -
  have "2 ^ 52 \<le> x / ulp64 x"
    using exponent64_lower [OF assms] ulp64_pos [of x]
    by (simp add: pos_le_divide_eq ulp64_scale')
  hence "of_int (2 ^ 52) \<le> x / ulp64 x" by simp
  hence "round_half_even (of_int (2 ^ 52)) \<le> round_half_even (x / ulp64 x)"
    by (rule round_half_even_mono)
  hence "2 ^ 52 \<le> round_half_even (x / ulp64 x)" by (simp only: round_half_even_of_int)
  hence "of_int (2 ^ 52) \<le> real_of_int (round_half_even (x / ulp64 x))"
    by (simp only: of_int_le_iff)
  hence "2 ^ 52 \<le> real_of_int (round_half_even (x / ulp64 x))" by simp
  hence "2 ^ 52 * ulp64 x \<le> of_int (round_half_even (x / ulp64 x)) * ulp64 x"
    using ulp64_pos [of x] by (simp add: mult_right_mono)
  thus ?thesis using assms by (simp add: round64_real_def ulp64_scale')
qed

lemma round64_real_nonneg:
  assumes "0 \<le> x"
  shows "0 \<le> round64_real x"
proof (cases "x = 0")
  case True
  then show ?thesis by simp
next
  case False
  have "0 \<le> x / ulp64 x" using assms ulp64_pos [of x] by simp
  hence "of_int 0 \<le> x / ulp64 x" by simp
  hence "round_half_even (of_int 0) \<le> round_half_even (x / ulp64 x)"
    by (rule round_half_even_mono)
  hence "0 \<le> round_half_even (x / ulp64 x)" by (simp only: round_half_even_of_int)
  thus ?thesis using False ulp64_pos [of x] by (simp add: round64_real_def)
qed

lemma round64_real_mono_pos:
  assumes "0 < x" "x \<le> y"
  shows "round64_real x \<le> round64_real y"
proof (cases "exponent64 x = exponent64 y")
  case True
  hence u: "ulp64 y = ulp64 x" by (simp add: ulp64_def)
  have "x / ulp64 x \<le> y / ulp64 x"
    using assms(2) ulp64_pos [of x] by (simp add: divide_right_mono)
  hence "round_half_even (x / ulp64 x) \<le> round_half_even (y / ulp64 x)"
    by (rule round_half_even_mono)
  hence "of_int (round_half_even (x / ulp64 x)) * ulp64 x
      \<le> of_int (round_half_even (y / ulp64 x)) * ulp64 x"
    using ulp64_pos [of x] by (simp add: mult_right_mono)
  thus ?thesis using assms by (simp add: round64_real_def u)
next
  case False
  have y: "0 < y" using assms by simp
  from False exponent64_mono [OF assms] have lt: "exponent64 x < exponent64 y" by simp
  hence "exponent64 x + 1 \<le> exponent64 y" by simp
  hence "(2::real) powr (of_int (exponent64 x) + 1) \<le> 2 powr of_int (exponent64 y)"
    by (simp add: powr_le_cancel_iff)
  moreover have "- 1022 < exponent64 y" using lt exponent64_ge [of x] by linarith
  ultimately show ?thesis
    using round64_real_upper [OF assms(1)] round64_real_lower [OF y] by linarith
qed

lemma round64_real_mono:
  assumes "x \<le> y"
  shows "round64_real x \<le> round64_real y"
proof -
  consider "0 < x" | "x \<le> 0" "0 \<le> y" | "y < 0" by linarith
  then show ?thesis
  proof cases
    case 1
    then show ?thesis using assms by (rule round64_real_mono_pos)
  next
    case 2
    have "0 \<le> round64_real (- x)" using 2(1) by (intro round64_real_nonneg) simp
    hence "round64_real x \<le> 0" by (simp add: round64_real_minus)
    moreover have "0 \<le> round64_real y" using 2(2) by (rule round64_real_nonneg)
    ultimately show ?thesis by linarith
  next
    case 3
    hence "0 < - y" "- y \<le> - x" using assms by simp_all
    hence "round64_real (- y) \<le> round64_real (- x)" by (rule round64_real_mono_pos)
    thus ?thesis by (simp add: round64_real_minus)
  qed
qed


lemma round64_real_of_int_mult:
  assumes "x \<noteq> 0" "x / ulp64 x = of_int n"
  shows "round64_real x = x"
proof -
  have "round64_real x = of_int n * ulp64 x"
    using assms by (simp add: round64_real_def)
  also have "\<dots> = x / ulp64 x * ulp64 x" by (simp only: assms(2))
  also have "\<dots> = x" using ulp64_pos [of x] by simp
  finally show ?thesis .
qed

lemma round64_real_representable_pos:
  assumes "0 < m" "m \<le> 2 ^ 53" "- 1074 \<le> e"
  shows "round64_real (of_int m * 2 powr of_int e) = of_int m * 2 powr of_int e"
proof -
  let ?y = "real_of_int m * 2 powr of_int e"
  have ypos: "0 < ?y" using assms(1) by simp
  show ?thesis
  proof (cases "m = 2 ^ 53")
    case True
    have y: "?y = 2 powr (of_int (e + 53))"
    proof -
      have "(2::real) powr (of_int (e + 53)) = 2 powr (of_int e + 53)" by simp
      also have "\<dots> = 2 powr of_int e * 2 powr 53" by (rule powr_add)
      finally show ?thesis using True by simp
    qed
    have E: "exponent64 ?y = e + 53"
    proof (rule exponent64_eqI [OF ypos])
      show "- 1022 \<le> e + 53" using assms(3) by simp
      show "?y < 2 powr (of_int (e + 53) + 1)" unfolding y by simp
      show "e + 53 = - 1022 \<or> 2 powr of_int (e + 53) \<le> ?y" unfolding y by simp
    qed
    have "ulp64 ?y = 2 powr (of_int (e + 53) - 52)" by (simp add: ulp64_def E)
    hence "?y / ulp64 ?y = 2 powr (of_int (e + 53)) / 2 powr (of_int (e + 53) - 52)"
      by (simp only: y)
    also have "\<dots> = 2 powr (of_int (e + 53) - (of_int (e + 53) - 52))"
      by (simp only: powr_diff)
    also have "\<dots> = of_int (2 ^ 52)" by simp
    finally have "?y / ulp64 ?y = of_int (2 ^ 52)" .
    moreover have "?y \<noteq> 0" using ypos by (rule less_imp_neq [symmetric])
    ultimately show ?thesis by (intro round64_real_of_int_mult)
  next
    case False
    with assms(2) have "m < 2 ^ 53" by simp
    hence "real_of_int m < of_int (2 ^ 53)" by (simp only: of_int_less_iff)
    hence "real_of_int m < 2 powr 53" by simp
    hence "?y < 2 powr 53 * 2 powr of_int e" by (simp add: mult_strict_right_mono)
    also have "\<dots> = 2 powr (53 + of_int e)" by (simp only: powr_add)
    finally have "log 2 ?y < 53 + of_int e"
      using ypos by (simp add: log_less_iff)
    hence "\<lfloor>log 2 ?y\<rfloor> < 53 + e" by (simp add: floor_less_iff)
    hence "exponent64 ?y \<le> e + 52"
      using assms(3) ypos by (simp add: exponent64_def)
    define d where "d = nat (e - (exponent64 ?y - 52))"
    define u where "u = ulp64 ?y"
    have d: "e = (exponent64 ?y - 52) + int d"
      using \<open>exponent64 ?y \<le> e + 52\<close> by (simp add: d_def)
    have upos: "0 < u" by (simp add: u_def ulp64_pos)
    have "real_of_int e = (of_int (exponent64 ?y) - 52) + real d"
      by (subst d) simp
    hence "(2::real) powr of_int e = 2 powr ((of_int (exponent64 ?y) - 52) + real d)"
      by (rule arg_cong)
    also have "\<dots> = 2 powr (of_int (exponent64 ?y) - 52) * 2 powr real d" by (rule powr_add)
    also have "\<dots> = u * 2 ^ d" by (simp add: u_def ulp64_def powr_realpow)
    finally have p: "(2::real) powr of_int e = u * 2 ^ d" .
    have "?y / u = of_int m * (u * 2 ^ d) / u" by (simp only: p)
    also have "\<dots> = of_int (m * 2 ^ d)" using upos by simp
    finally have "?y / ulp64 ?y = of_int (m * 2 ^ d)" by (simp only: u_def)
    moreover have "?y \<noteq> 0" using ypos by (rule less_imp_neq [symmetric])
    ultimately show ?thesis by (intro round64_real_of_int_mult)
  qed
qed

lemma round64_real_representable:
  assumes "\<bar>m\<bar> \<le> 2 ^ 53" "- 1074 \<le> e"
  shows "round64_real (of_int m * 2 powr of_int e) = of_int m * 2 powr of_int e"
proof -
  consider "m = 0" | "0 < m" | "m < 0" by linarith
  then show ?thesis
  proof cases
    case 1
    then show ?thesis by simp
  next
    case 2
    with assms show ?thesis by (intro round64_real_representable_pos) simp_all
  next
    case 3
    with assms have "round64_real (of_int (- m) * 2 powr of_int e) = of_int (- m) * 2 powr of_int e"
      by (intro round64_real_representable_pos) simp_all
    hence "round64_real (- (of_int m * 2 powr of_int e)) = - (of_int m * 2 powr of_int e)"
      by simp
    thus ?thesis by (simp only: round64_real_minus neg_equal_iff_equal)
  qed
qed

lemma round64_real_idem_pos:
  assumes "0 < x"
  shows "round64_real (round64_real x) = round64_real x"
proof -
  define n where "n = round_half_even (x / ulp64 x)"
  have r: "round64_real x = of_int n * 2 powr of_int (exponent64 x - 52)"
    using assms by (simp add: round64_real_def n_def ulp64_def)
  have "x / ulp64 x < 2 ^ 53"
    using exponent64_upper [OF assms] ulp64_pos [of x]
    by (simp add: pos_divide_less_eq ulp64_scale)
  hence "x / ulp64 x \<le> of_int (2 ^ 53)" by simp
  hence "round_half_even (x / ulp64 x) \<le> round_half_even (of_int (2 ^ 53))"
    by (rule round_half_even_mono)
  hence up: "n \<le> 2 ^ 53" by (simp only: round_half_even_of_int n_def)
  have "of_int 0 \<le> x / ulp64 x" using assms ulp64_pos [of x] by simp
  hence "round_half_even (of_int 0) \<le> round_half_even (x / ulp64 x)"
    by (rule round_half_even_mono)
  hence lo: "0 \<le> n" by (simp only: round_half_even_of_int n_def)
  have "- 1074 \<le> exponent64 x - 52" using exponent64_ge [of x] by simp
  moreover have "\<bar>n\<bar> \<le> 2 ^ 53" using up lo by simp
  ultimately show ?thesis unfolding r by (intro round64_real_representable)
qed

lemma round64_real_idem [simp]: "round64_real (round64_real x) = round64_real x"
proof -
  consider "x = 0" | "0 < x" | "x < 0" by linarith
  then show ?thesis
  proof cases
    case 1
    then show ?thesis by simp
  next
    case 2
    then show ?thesis by (rule round64_real_idem_pos)
  next
    case 3
    hence "round64_real (round64_real (- x)) = round64_real (- x)"
      by (intro round64_real_idem_pos) simp
    thus ?thesis by (simp add: round64_real_minus)
  qed
qed

lemma round64_real_double_pos:
  assumes "2 powr (- 1022) \<le> x"
  shows "round64_real (2 * x) = 2 * round64_real x"
proof -
  have xpos: "0 < x" using assms by (rule less_le_trans [rotated]) simp
  have lower: "2 powr of_int (exponent64 x) \<le> x"
  proof (cases "- 1022 < exponent64 x")
    case True
    with xpos show ?thesis by (rule exponent64_lower)
  next
    case False
    hence "exponent64 x = - 1022" using exponent64_ge [of x] by simp
    thus ?thesis using assms by simp
  qed
  have E: "exponent64 (2 * x) = exponent64 x + 1"
  proof (rule exponent64_eqI)
    show "0 < 2 * x" using xpos by simp
    show "- 1022 \<le> exponent64 x + 1" using exponent64_ge [of x] by simp
    have "2 * x < 2 * 2 powr (of_int (exponent64 x) + 1)"
      using exponent64_upper [OF xpos] by simp
    also have "\<dots> = 2 powr (of_int (exponent64 x + 1) + 1)"
      by (simp add: powr_add)
    finally show "2 * x < 2 powr (of_int (exponent64 x + 1) + 1)" .
    have "(2::real) powr of_int (exponent64 x + 1) = 2 * 2 powr of_int (exponent64 x)"
      by (simp add: powr_add)
    thus "exponent64 x + 1 = - 1022 \<or> 2 powr of_int (exponent64 x + 1) \<le> 2 * x"
      using lower by simp
  qed
  have u: "ulp64 (2 * x) = 2 * ulp64 x"
  proof -
    have "ulp64 (2 * x) = 2 powr ((of_int (exponent64 x) - 52) + 1)"
      by (simp add: ulp64_def E)
    also have "\<dots> = 2 powr (of_int (exponent64 x) - 52) * 2 powr 1" by (rule powr_add)
    finally show ?thesis by (simp add: ulp64_def)
  qed
  show ?thesis using xpos by (simp add: round64_real_def u)
qed

lemma round64_real_double:
  assumes "2 powr (- 1022) \<le> \<bar>x\<bar>"
  shows "round64_real (2 * x) = 2 * round64_real x"
proof (cases "0 \<le> x")
  case True
  with assms show ?thesis by (intro round64_real_double_pos) simp
next
  case False
  with assms have "round64_real (2 * (- x)) = 2 * round64_real (- x)"
    by (intro round64_real_double_pos) simp
  hence "round64_real (- (2 * x)) = 2 * round64_real (- x)" by simp
  hence "- round64_real (2 * x) = 2 * (- round64_real x)"
    by (simp only: round64_real_minus)
  thus ?thesis by simp
qed

lemma round64_real_underflow_pos:
  assumes "0 < x" "x \<le> 2 powr (- 1075)"
  shows "round64_real x = 0"
proof -
  have E: "exponent64 x = - 1022"
  proof (rule exponent64_eqI [OF assms(1)])
    have "(2::real) powr (- 1075) < 2 powr (of_int (- 1022) + 1)" by simp
    with assms(2) show "x < 2 powr (of_int (- 1022) + 1)" by linarith
  qed simp_all
  have u: "ulp64 x = 2 powr (- 1074)" by (simp add: ulp64_def E)
  have "(2::real) powr (- 1075) = 2 powr (- 1074 + - 1)" by simp
  also have "\<dots> = 2 powr (- 1074) * 2 powr (- 1)" by (rule powr_add)
  also have "\<dots> = 2 powr (- 1074) / 2" by (simp add: powr_minus_divide)
  finally have "x \<le> ulp64 x / 2" using assms(2) u by simp
  hence "x / ulp64 x \<le> (ulp64 x / 2) / ulp64 x"
    using ulp64_pos [of x] by (intro divide_right_mono) simp_all
  also have "\<dots> = 1 / 2" using ulp64_pos [of x] by simp
  finally have q1: "x / ulp64 x \<le> 1 / 2" .
  have q2: "0 < x / ulp64 x" using ulp64_pos [of x] assms(1) by simp
  note q = q1 q2
  have "0 \<le> x / ulp64 x \<and> x / ulp64 x < 1" using q by linarith
  hence "\<lfloor>x / ulp64 x\<rfloor> = 0" by (simp add: floor_eq_iff)
  hence "round_half_even (x / ulp64 x) = 0"
    using q by (simp add: round_half_even_def)
  thus ?thesis using assms(1) by (simp add: round64_real_def)
qed

lemma round64_real_underflow:
  assumes "\<bar>x\<bar> \<le> 2 powr (- 1075)"
  shows "round64_real x = 0"
proof -
  consider "x = 0" | "0 < x" | "x < 0" by linarith
  then show ?thesis
  proof cases
    case 1
    then show ?thesis by simp
  next
    case 2
    with assms show ?thesis by (intro round64_real_underflow_pos) simp_all
  next
    case 3
    with assms have "round64_real (- x) = 0" by (intro round64_real_underflow_pos) simp_all
    thus ?thesis by (simp add: round64_real_minus)
  qed
qed

lemma round64_real_tie_numeral: "round64_real 9007199254740993 = 9007199254740992"
proof -
  have E: "exponent64 9007199254740993 = 53"
  proof (rule exponent64_eqI)
    show "(9007199254740993::real) < 2 powr (of_int 53 + 1)" by simp
    show "(53::int) = - 1022 \<or> 2 powr of_int 53 \<le> (9007199254740993::real)" by simp
  qed simp_all
  have u: "ulp64 9007199254740993 = 2" by (simp add: ulp64_def E)
  show ?thesis
    by (simp add: round64_real_def u round_half_even_def)
qed

lemma round64_real_tie: "round64_real (2 ^ 53 + 1) = 2 ^ 53"
  using round64_real_tie_numeral by simp

section \<open>Properties of the normal density\<close>

lemma round64_Num_unfold:
  "round64 (Num x) =
     (if 2 ^ 1024 \<le> \<bar>round64_real x\<bar> then signed_inf (0 < x) else Num (round64_real x))"
  by simp

declare round64.simps(1) [simp del]

lemma round64_real_power2: "round64_real (2 ^ k) = 2 ^ k"
proof -
  have "round64_real (of_int 1 * 2 powr of_int (int k)) = of_int 1 * 2 powr of_int (int k)"
    by (rule round64_real_representable) simp_all
  thus ?thesis by (simp add: powr_realpow)
qed

lemma round64_real_inverse_power2:
  assumes "k \<le> 1074"
  shows "round64_real (1 / 2 ^ k) = 1 / 2 ^ k"
proof -
  have "round64_real (of_int 1 * 2 powr of_int (- int k)) = of_int 1 * 2 powr of_int (- int k)"
    using assms by (intro round64_real_representable) simp_all
  thus ?thesis by (simp add: powr_minus_divide powr_realpow)
qed

lemma round64_real_of_int:
  assumes "\<bar>m\<bar> \<le> 2 ^ 53"
  shows "round64_real (of_int m) = of_int m"
  using round64_real_representable [OF assms, of 0] by simp

lemma round64_real_le_power2: "z \<le> 2 ^ k \<Longrightarrow> round64_real z \<le> 2 ^ k"
  using round64_real_mono [of z "2 ^ k"] by (simp add: round64_real_power2)

lemma round64_real_ge_power2: "2 ^ k \<le> z \<Longrightarrow> 2 ^ k \<le> round64_real z"
  using round64_real_mono [of "2 ^ k" z] by (simp add: round64_real_power2)

lemma round64_real_ge_inverse_power2:
  "k \<le> 1074 \<Longrightarrow> 1 / 2 ^ k \<le> z \<Longrightarrow> 1 / 2 ^ k \<le> round64_real z"
  using round64_real_mono [of "1 / 2 ^ k" z] by (simp add: round64_real_inverse_power2)

lemma round64_real_abs_le_power2:
  assumes "\<bar>z\<bar> \<le> 2 ^ k"
  shows "\<bar>round64_real z\<bar> \<le> 2 ^ k"
proof -
  have "round64_real z \<le> 2 ^ k" using assms by (intro round64_real_le_power2) simp
  moreover have "round64_real (- z) \<le> 2 ^ k" using assms by (intro round64_real_le_power2) simp
  ultimately show ?thesis by (simp add: round64_real_minus abs_le_iff)
qed

lemma round64_Num:
  assumes "\<bar>z\<bar> \<le> 2 ^ 1023"
  shows "round64 (Num z) = Num (round64_real z)"
proof -
  have "\<bar>round64_real z\<bar> \<le> 2 ^ 1023" using assms by (rule round64_real_abs_le_power2)
  moreover have "(2::real) ^ 1023 < 2 ^ 1024" by simp
  ultimately have "\<not> 2 ^ 1024 \<le> \<bar>round64_real z\<bar>" by linarith
  thus ?thesis by (simp add: round64_Num_unfold)
qed

lemma round64_Num_0 [simp]: "round64 (Num 0) = Num 0"
  by (simp add: round64_Num_unfold)

lemma round64_overflow:
  assumes "2 ^ 1024 \<le> z"
  shows "round64 (Num z) = PosInfinity"
proof -
  have "2 ^ 1024 \<le> round64_real z" using assms by (rule round64_real_ge_power2)
  moreover have "0 < z" using assms by (rule less_le_trans [rotated]) simp
  ultimately show ?thesis by (simp add: round64_Num_unfold signed_inf_def)
qed

lemma isNaN_round64 [simp]: "isNaN (round64 v) = isNaN v"
  by (cases v) (simp_all add: round64_Num_unfold signed_inf_def)

lemma round64_neg: "round64 (num_neg v) = num_neg (round64 v)"
proof (cases v)
  case (Num x)
  show ?thesis
  proof (cases "x = 0")
    case True
    with Num show ?thesis by simp
  next
    case False
    with Num show ?thesis by (auto simp: round64_Num_unfold round64_real_minus signed_inf_def)
  qed
qed simp_all

lemma round64_mono:
  assumes "z \<le> z'"
  shows "\<not> num_lt (round64 (Num z')) (round64 (Num z))"
proof -
  have m: "round64_real z \<le> round64_real z'" using assms by (rule round64_real_mono)
  have nn: "0 \<le> z \<Longrightarrow> 0 \<le> round64_real z" "0 \<le> z' \<Longrightarrow> 0 \<le> round64_real z'"
    by (rule round64_real_nonneg, assumption)+
  have np: "z \<le> 0 \<Longrightarrow> round64_real z \<le> 0" "z' \<le> 0 \<Longrightarrow> round64_real z' \<le> 0"
    using round64_real_nonneg [of "- z"] round64_real_nonneg [of "- z'"]
    by (simp_all add: round64_real_minus)
  show ?thesis
    using m nn np assms
    by (auto simp: round64_Num_unfold signed_inf_def abs_le_iff not_less not_le split: if_splits)
qed


lemma round64_underflow:
  assumes "\<bar>z\<bar> \<le> 1 / 2 ^ 1075"
  shows "round64 (Num z) = Num 0"
proof -
  have "(2::real) powr (- 1075) = 1 / 2 ^ 1075"
    by (simp add: powr_minus_divide)
  hence "round64_real z = 0" using assms by (intro round64_real_underflow) simp
  thus ?thesis by (simp add: round64_Num_unfold)
qed

lemma round64_Num_1 [simp]: "round64 (Num 1) = Num 1"
  using round64_Num [of 1] round64_real_power2 [of 0] by simp

lemma strict_eq_same: "strict_eq a a = (\<not> isNaN a)"
  by (simp add: strict_eq_def)

lemma num_lt_PosInfinity [simp]: "num_lt PosInfinity v = False"
  by (cases v) simp_all

lemma num_lt_irrefl [simp]: "num_lt v v = False"
  by (cases v) simp_all

lemma num_lt_NaN_right [simp]: "num_lt v NaN = False"
  by (cases v) simp_all

lemma num_mul_neg_neg: "num_mul (num_neg s) (num_neg s) = num_mul s s"
  by (cases s) simp_all

lemma num_div_neg_left: "num_div (num_neg v) s = num_neg (num_div v s)"
  by (cases v; cases s) (auto simp: signed_inf_def)

lemma num_div_neg_right:
  "num_div v (num_neg s) = num_neg (num_div v s) \<or> num_div v (num_neg s) = num_div v s"
  by (cases v; cases s) (auto simp: signed_inf_def)

lemma Math_pow_neg_2: "Math_pow (num_neg w) 2 = Math_pow w 2"
  by (cases w) (simp_all add: numeral_2_eq_2 signed_inf_def)

lemma fl_pow_neg_2: "fl_pow (round64 (num_neg w)) 2 = fl_pow (round64 w) 2"
  by (simp add: fl_pow_def round64_neg Math_pow_neg_2)

lemma fl_pow_div_neg_left: "fl_pow (fl_div (num_neg v) s) 2 = fl_pow (fl_div v s) 2"
  by (simp add: fl_div_def num_div_neg_left fl_pow_neg_2)

lemma fl_pow_div_neg_right: "fl_pow (fl_div v (num_neg s)) 2 = fl_pow (fl_div v s) 2"
  using num_div_neg_right [of v s] by (auto simp: fl_div_def fl_pow_neg_2)

lemma normalPDF_neg_sigma: "normalPDF x mu (num_neg sigma) = normalPDF x mu sigma"
  by (simp add: normalPDF_def Let_def fl_mul_def num_mul_neg_neg fl_pow_div_neg_right)

lemma normalPDF_neg_offset:
  assumes "fl_sub x mu = num_neg (fl_sub x' mu)"
  shows "normalPDF x mu sigma = normalPDF x' mu sigma"
  by (simp add: normalPDF_def Let_def assms fl_pow_div_neg_left)


lemma round64_nonneg_cases:
  assumes "0 \<le> z"
  shows "round64 (Num z) = PosInfinity
       \<or> (round64 (Num z) = Num (round64_real z) \<and> 0 \<le> round64_real z)"
proof (cases "2 ^ 1024 \<le> \<bar>round64_real z\<bar>")
  case True
  hence "round64_real z \<noteq> 0" by auto
  hence "z \<noteq> 0" by auto
  with assms True show ?thesis by (simp add: round64_Num_unfold signed_inf_def)
next
  case False
  with round64_real_nonneg [OF assms] show ?thesis by (simp add: round64_Num_unfold)
qed

lemma round64_nonpos_cases:
  assumes "z \<le> 0"
  shows "round64 (Num z) = NegInfinity
       \<or> (round64 (Num z) = Num (round64_real z) \<and> round64_real z \<le> 0)"
proof (cases "2 ^ 1024 \<le> \<bar>round64_real z\<bar>")
  case True
  hence "round64_real z \<noteq> 0" by auto
  hence "z \<noteq> 0" by auto
  with assms True show ?thesis by (simp add: round64_Num_unfold signed_inf_def)
next
  case False
  have "0 \<le> round64_real (- z)" using assms by (intro round64_real_nonneg) simp
  hence "round64_real z \<le> 0" by (simp add: round64_real_minus)
  with False show ?thesis by (simp add: round64_Num_unfold)
qed

lemma fl_pow_2_cases:
  "isNaN (fl_pow w 2) \<or> fl_pow w 2 = PosInfinity \<or> (\<exists>p\<ge>0. fl_pow w 2 = Num p)"
proof (cases w)
  case (Num a)
  have "0 \<le> a ^ 2" by simp
  from round64_nonneg_cases [OF this] Num show ?thesis
    by (auto simp: fl_pow_def)
qed (simp_all add: fl_pow_def numeral_2_eq_2 signed_inf_def)

lemma factor_range:
  "isNaN (fl_exp (fl_mul (Num (- 0.5)) (fl_pow w 2)))
   \<or> (\<exists>e. fl_exp (fl_mul (Num (- 0.5)) (fl_pow w 2)) = Num e \<and> 0 \<le> e \<and> e \<le> 1)"
proof -
  have exp_case: "\<exists>e. fl_exp (Num q) = Num e \<and> 0 \<le> e \<and> e \<le> 1" if "q \<le> 0" for q
  proof -
    have le1: "exp q \<le> 1" using that by simp
    have up: "round64_real (exp q) \<le> 1"
      using le1 round64_real_le_power2 [of "exp q" 0] by simp
    have lo: "0 \<le> round64_real (exp q)" by (intro round64_real_nonneg) simp
    have "(1::real) \<le> 2 ^ 1023" by (rule one_le_power) simp
    with le1 have "exp q \<le> 2 ^ 1023" by (rule order_trans)
    moreover have "\<bar>exp q\<bar> = exp q" by (rule abs_of_pos) (rule exp_gt_zero)
    ultimately have "\<bar>exp q\<bar> \<le> 2 ^ 1023" by (simp only:)
    hence "round64 (Num (exp q)) = Num (round64_real (exp q))" by (rule round64_Num)
    with up lo show ?thesis by (simp add: fl_exp_def)
  qed
  from fl_pow_2_cases [of w] show ?thesis
  proof (elim disjE exE conjE)
    assume "isNaN (fl_pow w 2)"
    hence "fl_pow w 2 = NaN" by (cases "fl_pow w 2") simp_all
    thus ?thesis by (simp add: fl_mul_def fl_exp_def)
  next
    assume "fl_pow w 2 = PosInfinity"
    hence "fl_exp (fl_mul (Num (- 0.5)) (fl_pow w 2)) = Num 0"
      by (simp add: fl_mul_def fl_exp_def signed_inf_def)
    thus ?thesis by simp
  next
    fix p :: real assume p: "0 \<le> p" "fl_pow w 2 = Num p"
    have "- 0.5 * p \<le> 0" using p(1) by simp
    from round64_nonpos_cases [OF this]
    show ?thesis
    proof
      assume "round64 (Num (- 0.5 * p)) = NegInfinity"
      hence "fl_exp (fl_mul (Num (- 0.5)) (fl_pow w 2)) = Num 0"
        by (simp add: fl_mul_def fl_exp_def p(2))
      thus ?thesis by simp
    next
      assume "round64 (Num (- 0.5 * p)) = Num (round64_real (- 0.5 * p))
        \<and> round64_real (- 0.5 * p) \<le> 0"
      hence "fl_mul (Num (- 0.5)) (fl_pow w 2) = Num (round64_real (- 0.5 * p))"
        and "round64_real (- 0.5 * p) \<le> 0"
        by (simp_all add: fl_mul_def p(2))
      with exp_case [of "round64_real (- 0.5 * p)"] show ?thesis by simp
    qed
  qed
qed

lemma factor_not_NaN:
  assumes "s \<noteq> 0"
  shows "\<not> isNaN (fl_exp (fl_mul (Num (- 0.5)) (fl_pow (fl_div (fl_sub (Num x) (Num mu)) (Num s)) 2)))"
proof -
  have d: "\<not> isNaN (fl_sub (Num x) (Num mu))"
    by (simp add: fl_sub_def num_sub_def signed_inf_def)
  have "\<not> isNaN (fl_div (fl_sub (Num x) (Num mu)) (Num s))"
    using d assms by (cases "fl_sub (Num x) (Num mu)") (simp_all add: fl_div_def signed_inf_def)
  hence "\<not> isNaN (fl_pow (fl_div (fl_sub (Num x) (Num mu)) (Num s)) 2)"
    by (cases "fl_div (fl_sub (Num x) (Num mu)) (Num s)")
       (simp_all add: fl_pow_def numeral_2_eq_2 signed_inf_def)
  from fl_pow_2_cases [of "fl_div (fl_sub (Num x) (Num mu)) (Num s)"] this
  show ?thesis
  proof (elim disjE exE conjE)
    assume "fl_pow (fl_div (fl_sub (Num x) (Num mu)) (Num s)) 2 = PosInfinity"
    thus ?thesis by (simp add: fl_mul_def fl_exp_def signed_inf_def)
  next
    fix p :: real assume p: "0 \<le> p" "fl_pow (fl_div (fl_sub (Num x) (Num mu)) (Num s)) 2 = Num p"
    have "- 0.5 * p \<le> 0" using p(1) by simp
    from round64_nonpos_cases [OF this] show ?thesis
      by (auto simp: fl_mul_def fl_exp_def p(2) signed_inf_def)
  qed simp
qed

lemma factor_at_mean:
  assumes "s \<noteq> 0"
  shows "fl_exp (fl_mul (Num (- 0.5)) (fl_pow (fl_div (fl_sub (Num m) (Num m)) (Num s)) 2)) = Num 1"
  using assms
  by (simp add: fl_sub_def num_sub_def fl_div_def fl_pow_def fl_mul_def fl_exp_def)


lemma round64_Num_range:
  assumes "0 \<le> z" "z \<le> 2 ^ k" "k \<le> 1023"
  shows "round64 (Num z) = Num (round64_real z)"
proof -
  have "(2::real) ^ k \<le> 2 ^ 1023" using assms(3) by (intro power_increasing) simp_all
  with assms(1,2) have "\<bar>z\<bar> \<le> 2 ^ 1023" by simp
  thus ?thesis by (rule round64_Num)
qed

lemma round64_Num_small:
  "round64 (Num 1) = Num 1" "round64 (Num 2) = Num 2" "round64 (Num 4) = Num 4"
  "round64 (Num (- 1)) = Num (- 1)"
proof -
  show 1: "round64 (Num 1) = Num 1" by simp
  show "round64 (Num 2) = Num 2"
    using round64_Num_range [of 2 1] round64_real_power2 [of 1] by simp
  show "round64 (Num 4) = Num 4"
    using round64_Num_range [of 4 2] round64_real_power2 [of 2] by simp
  have "round64 (num_neg (Num 1)) = num_neg (round64 (Num 1))" by (rule round64_neg)
  thus "round64 (Num (- 1)) = Num (- 1)" by (simp add: 1)
qed

lemma two_pi_double: "round64_real (2 * pi) = 2 * round64_real pi"
proof -
  have "2 powr (- 1022) \<le> (1::real)"
    using powr_mono [of "- 1022" 0 "2::real"] by simp
  moreover have "1 \<le> pi" using pi_ge_two by linarith
  ultimately have "2 powr (- 1022) \<le> \<bar>pi\<bar>" by simp
  thus ?thesis by (rule round64_real_double)
qed

lemma two_pi_rounded:
  "fl_mul (Num 2) Math_PI = Num (round64_real (2 * pi))"
  "4 \<le> round64_real (2 * pi)" "round64_real (2 * pi) \<le> 8"
proof -
  have lo: "(2::real) ^ 2 \<le> 2 * pi" using pi_ge_two by simp
  have hi: "2 * pi \<le> (2::real) ^ 3" using pi_less_4 by simp
  have "0 \<le> 2 * pi" by simp
  from round64_Num_range [OF this hi]
  show "fl_mul (Num 2) Math_PI = Num (round64_real (2 * pi))"
    by (simp add: fl_mul_def Math_PI_def)
  show "4 \<le> round64_real (2 * pi)" using round64_real_ge_power2 [OF lo] by simp
  show "round64_real (2 * pi) \<le> 8" using round64_real_le_power2 [OF hi] by simp
qed

lemma normalPDF_factors:
  "normalPDF x mu sigma = fl_mul (inv_factor sigma) (exp_factor x mu sigma)"
  by (simp add: normalPDF_def inv_factor_def exp_factor_def Let_def)

lemma inv_factor_cases:
  "inv_factor (Num s) = PosInfinity
   \<or> (\<exists>i\<ge>0. inv_factor (Num s) = Num i \<and> round64_real i = i)"
proof -
  let ?c = "round64_real (2 * pi)"
  have cpos: "0 < ?c" using two_pi_rounded(2) by linarith
  have sq: "fl_mul (Num s) (Num s) = PosInfinity
    \<or> (\<exists>a\<ge>0. fl_mul (Num s) (Num s) = Num a)"
    using round64_nonneg_cases [of "s * s"] by (auto simp: fl_mul_def)
  have prod: "fl_mul (fl_mul (Num 2) Math_PI) (fl_mul (Num s) (Num s)) = PosInfinity
    \<or> (\<exists>b\<ge>0. fl_mul (fl_mul (Num 2) Math_PI) (fl_mul (Num s) (Num s)) = Num b)"
    using sq
  proof (elim disjE exE conjE)
    assume "fl_mul (Num s) (Num s) = PosInfinity"
    thus ?thesis
      unfolding two_pi_rounded(1) using cpos by (simp add: fl_mul_def signed_inf_def)
  next
    fix a :: real assume a: "0 \<le> a" "fl_mul (Num s) (Num s) = Num a"
    have "0 \<le> ?c * a" using cpos a(1) by simp
    from round64_nonneg_cases [OF this] show ?thesis
      unfolding two_pi_rounded(1) a(2) by (auto simp: fl_mul_def)
  qed
  have root: "fl_sqrt (fl_mul (fl_mul (Num 2) Math_PI) (fl_mul (Num s) (Num s))) = PosInfinity
    \<or> (\<exists>r\<ge>0. fl_sqrt (fl_mul (fl_mul (Num 2) Math_PI) (fl_mul (Num s) (Num s))) = Num r)"
    using prod
  proof (elim disjE exE conjE)
    assume "fl_mul (fl_mul (Num 2) Math_PI) (fl_mul (Num s) (Num s)) = PosInfinity"
    thus ?thesis by (simp add: fl_sqrt_def)
  next
    fix b :: real
    assume b: "0 \<le> b" "fl_mul (fl_mul (Num 2) Math_PI) (fl_mul (Num s) (Num s)) = Num b"
    have "0 \<le> sqrt b" using b(1) by simp
    from round64_nonneg_cases [OF this] show ?thesis
      using b(1) by (auto simp: b(2) fl_sqrt_def)
  qed
  show ?thesis
    using root
  proof (elim disjE exE conjE)
    assume "fl_sqrt (fl_mul (fl_mul (Num 2) Math_PI) (fl_mul (Num s) (Num s))) = PosInfinity"
    hence "inv_factor (Num s) = Num 0" by (simp add: inv_factor_def fl_div_def)
    thus ?thesis by simp
  next
    fix r :: real
    assume r: "0 \<le> r"
      "fl_sqrt (fl_mul (fl_mul (Num 2) Math_PI) (fl_mul (Num s) (Num s))) = Num r"
    show ?thesis
    proof (cases "r = 0")
      case True
      thus ?thesis by (simp add: inv_factor_def r(2) fl_div_def signed_inf_def)
    next
      case False
      have "0 \<le> 1 / r" using r(1) by simp
      from round64_nonneg_cases [OF this] show ?thesis
        using False by (auto simp: inv_factor_def r(2) fl_div_def)
    qed
  qed
qed

lemma normalPDF_peak:
  "\<not> num_lt (normalPDF mu mu (Num s)) (normalPDF x mu (Num s))"
proof (cases "s = 0 \<or> \<not> is_finite mu")
  case True
  hence "fl_div (fl_sub mu mu) (Num s) = NaN"
    by (cases mu) (auto simp: fl_div_def fl_sub_def num_sub_def)
  hence "exp_factor mu mu (Num s) = NaN"
    by (simp add: exp_factor_def fl_pow_def fl_mul_def fl_exp_def numeral_2_eq_2)
  hence "normalPDF mu mu (Num s) = NaN"
    by (cases "inv_factor (Num s)") (simp_all add: normalPDF_factors fl_mul_def)
  thus ?thesis by simp
next
  case False
  then obtain m where mu: "mu = Num m" and s: "s \<noteq> 0" by (cases mu) auto
  have e0: "exp_factor mu mu (Num s) = Num 1"
    unfolding exp_factor_def mu using s by (rule factor_at_mean)
  from factor_range [of "fl_div (fl_sub x mu) (Num s)"]
  have e1: "isNaN (exp_factor x mu (Num s))
    \<or> (\<exists>e. exp_factor x mu (Num s) = Num e \<and> 0 \<le> e \<and> e \<le> 1)"
    by (simp add: exp_factor_def)
  from inv_factor_cases [of s] show ?thesis
  proof (elim disjE exE conjE)
    assume "inv_factor (Num s) = PosInfinity"
    thus ?thesis by (simp add: normalPDF_factors e0 fl_mul_def signed_inf_def)
  next
    fix i :: real assume i: "0 \<le> i" "inv_factor (Num s) = Num i" "round64_real i = i"
    from e1 show ?thesis
    proof (elim disjE exE conjE)
      assume "isNaN (exp_factor x mu (Num s))"
      hence "exp_factor x mu (Num s) = NaN" by (cases "exp_factor x mu (Num s)") simp_all
      thus ?thesis by (simp add: normalPDF_factors i(2) fl_mul_def)
    next
      fix e :: real assume e: "exp_factor x mu (Num s) = Num e" "0 \<le> e" "e \<le> 1"
      have "i * e \<le> i * 1" using i(1) e(3) by (intro mult_left_mono)
      hence "i * e \<le> i" by simp
      from round64_mono [OF this] show ?thesis
        by (simp add: normalPDF_factors i(2) e(1) e0 fl_mul_def)
    qed
  qed
qed


lemma tiny_sigma_pos: "0 < tiny_sigma"
  by (simp add: tiny_sigma_def)

lemma inv_factor_underflow: "inv_factor (Num tiny_sigma) = PosInfinity"
proof -
  have "tiny_sigma * tiny_sigma = 1 / (2::real) ^ (600 + 600)"
    unfolding tiny_sigma_def by (simp only: power_add) simp
  also have "\<dots> \<le> 1 / 2 ^ 1075"
    by (intro divide_left_mono power_increasing) simp_all
  finally have "tiny_sigma * tiny_sigma \<le> 1 / 2 ^ 1075" .
  moreover have "0 \<le> tiny_sigma * tiny_sigma" by simp
  ultimately have "\<bar>tiny_sigma * tiny_sigma\<bar> \<le> 1 / 2 ^ 1075" by (simp only: abs_of_nonneg)
  hence sq: "fl_mul (Num tiny_sigma) (Num tiny_sigma) = Num 0"
    unfolding fl_mul_def num_mul.simps by (rule round64_underflow)
  show ?thesis
    unfolding inv_factor_def sq two_pi_rounded(1)
    by (simp add: fl_mul_def fl_sqrt_def fl_div_def signed_inf_def)
qed

lemma exp_factor_overflow:
  assumes "fl_sub x mu = Num 1 \<or> fl_sub x mu = Num (- 1)"
  shows "exp_factor x mu (Num tiny_sigma) = Num 0"
proof -
  define h :: real where "h = 2 ^ 600"
  have inv: "1 / tiny_sigma = h" "- 1 / tiny_sigma = - h"
    by (simp_all add: tiny_sigma_def h_def)
  have "0 \<le> h" "h \<le> 2 ^ 600" by (simp_all add: h_def)
  hence "round64 (Num h) = Num (round64_real h)" by (rule round64_Num_range) simp
  moreover have "round64_real h = h" unfolding h_def by (rule round64_real_power2)
  ultimately have big: "round64 (Num h) = Num h" by simp
  have nz: "tiny_sigma \<noteq> 0" using tiny_sigma_pos by simp
  have q: "fl_div (fl_sub x mu) (Num tiny_sigma) = Num h
    \<or> fl_div (fl_sub x mu) (Num tiny_sigma) = num_neg (Num h)"
    using assms
  proof
    assume "fl_sub x mu = Num 1"
    hence "fl_div (fl_sub x mu) (Num tiny_sigma) = round64 (Num (1 / tiny_sigma))"
      using nz by (simp add: fl_div_def)
    thus ?thesis by (simp only: inv big) simp
  next
    assume "fl_sub x mu = Num (- 1)"
    hence "fl_div (fl_sub x mu) (Num tiny_sigma) = round64 (Num (- 1 / tiny_sigma))"
      using nz by (simp add: fl_div_def)
    hence "fl_div (fl_sub x mu) (Num tiny_sigma) = round64 (num_neg (Num h))"
      by (simp only: inv num_neg.simps)
    thus ?thesis by (simp only: round64_neg big) simp
  qed
  have "h ^ 2 = 2 ^ (600 * 2)" unfolding h_def by (rule power_mult [symmetric])
  moreover have "(2::real) ^ 1024 \<le> 2 ^ (600 * 2)" by (intro power_increasing) simp_all
  ultimately have "2 ^ 1024 \<le> h ^ 2" by (simp only:)
  hence "round64 (Num (h ^ 2)) = PosInfinity" by (rule round64_overflow)
  hence "fl_pow (Num h) 2 = PosInfinity"
    by (simp only: fl_pow_def Math_pow_Num)
  moreover have "fl_pow (num_neg (Num h)) 2 = fl_pow (Num h) 2"
    by (simp only: fl_pow_def Math_pow_neg_2)
  ultimately have "fl_pow (fl_div (fl_sub x mu) (Num tiny_sigma)) 2 = PosInfinity"
    using q by auto
  thus ?thesis
    by (simp add: exp_factor_def fl_mul_def fl_exp_def signed_inf_def)
qed

lemma exp_factor_zero_offset:
  assumes "fl_sub x mu = Num 0" "s \<noteq> 0"
  shows "exp_factor x mu (Num s) = Num 1"
  using assms by (simp add: exp_factor_def fl_div_def fl_pow_def fl_mul_def fl_exp_def)

lemma normalPDF_underflow_NaN: "normalPDF (Num 1) (Num 0) (Num tiny_sigma) = NaN"
proof -
  have "fl_sub (Num 1) (Num 0) = Num 1" by (simp add: fl_sub_def num_sub_def)
  hence "exp_factor (Num 1) (Num 0) (Num tiny_sigma) = Num 0"
    by (intro exp_factor_overflow) simp
  thus ?thesis
    by (simp add: normalPDF_factors inv_factor_underflow fl_mul_def)
qed

lemma fl_sub_big_mu: "fl_sub (Num big_mu) (Num 1) = Num (big_mu - 1)"
proof -
  have "round64_real (of_int (2 ^ 53 - 1)) = of_int (2 ^ 53 - 1)"
    by (rule round64_real_of_int) simp
  hence m: "round64_real (big_mu - 1) = big_mu - 1" by (simp add: big_mu_def)
  have b': "0 \<le> big_mu - 1" "big_mu - 1 \<le> 2 ^ 54" by (simp_all add: big_mu_def)
  from round64_Num_range [OF b'] m
  show ?thesis by (simp add: fl_sub_def num_sub_def)
qed

lemma round64_between:
  assumes "1 / 2 ^ a \<le> z" "z \<le> 2 ^ b" "a \<le> 1074" "b \<le> 1023"
  shows "round64 (Num z) = Num (round64_real z)"
    and "1 / 2 ^ a \<le> round64_real z" and "round64_real z \<le> 2 ^ b"
proof -
  have "(0::real) \<le> 1 / 2 ^ a" by simp
  from this assms(1) have "0 \<le> z" by (rule order_trans)
  thus "round64 (Num z) = Num (round64_real z)"
    using assms(2,4) by (rule round64_Num_range)
  show "1 / 2 ^ a \<le> round64_real z"
    using assms(3,1) by (rule round64_real_ge_inverse_power2)
  show "round64_real z \<le> 2 ^ b"
    using assms(2) by (rule round64_real_le_power2)
qed

lemma square_between:
  fixes s :: real
  assumes "1 / 2 ^ a \<le> s" "s \<le> 2 ^ b"
  shows "1 / 2 ^ (a + a) \<le> s * s" "s * s \<le> 2 ^ (b + b)"
proof -
  have p: "(0::real) \<le> 1 / 2 ^ a" by simp
  from p assms(1) have s: "0 \<le> s" by (rule order_trans)
  have "(1 / 2 ^ a) * (1 / 2 ^ a) \<le> s * s"
    using assms(1) assms(1) p p by (rule mult_mono')
  thus "1 / 2 ^ (a + a) \<le> s * s" by (simp add: power_add)
  have "s * s \<le> 2 ^ b * 2 ^ b"
    using assms(2) assms(2) s s by (rule mult_mono')
  thus "s * s \<le> 2 ^ (b + b)" by (simp add: power_add)
qed

lemma scaled_between:
  fixes c r :: real
  assumes "4 \<le> c" "c \<le> 8" "1 / 2 ^ (a + 2) \<le> r" "r \<le> 2 ^ b"
  shows "1 / 2 ^ a \<le> c * r" "c * r \<le> 2 ^ (b + 3)"
proof -
  have r: "0 \<le> r" using assms(3) by (rule order_trans [rotated]) simp
  have "4 * (1 / 2 ^ (a + 2)) \<le> c * r"
    using assms(1,3) by (intro mult_mono) simp_all
  thus "1 / 2 ^ a \<le> c * r" by simp
  have "c * r \<le> 8 * 2 ^ b"
    using assms(2,4) r by (intro mult_mono) simp_all
  thus "c * r \<le> 2 ^ (b + 3)" by (simp add: power_add)
qed

lemma sqrt_between:
  fixes r :: real
  assumes "1 / 2 ^ (a + a) \<le> r" "r \<le> 2 ^ (b + b)"
  shows "1 / 2 ^ a \<le> sqrt r" "sqrt r \<le> 2 ^ b"
proof -
  have "sqrt (1 / 2 ^ (a + a)) = 1 / (2::real) ^ a"
    by (simp add: real_sqrt_divide power_add real_sqrt_mult)
  moreover have "sqrt (1 / 2 ^ (a + a)) \<le> sqrt r" using assms(1) by simp
  ultimately show "1 / 2 ^ a \<le> sqrt r" by simp
  have "sqrt (2 ^ (b + b)) = (2::real) ^ b"
    by (simp add: power_add real_sqrt_mult)
  moreover have "sqrt r \<le> sqrt (2 ^ (b + b))" using assms(2) by simp
  ultimately show "sqrt r \<le> 2 ^ b" by simp
qed

lemma inverse_between:
  fixes r :: real
  assumes "1 / 2 ^ a \<le> r" "r \<le> 2 ^ b"
  shows "1 / 2 ^ b \<le> 1 / r" "1 / r \<le> 2 ^ a" "r \<noteq> 0"
proof -
  have pos: "0 < r" using assms(1) by (rule less_le_trans [rotated]) simp
  show "r \<noteq> 0" using pos by simp
  show "1 / 2 ^ b \<le> 1 / r" using assms(2) pos by (simp add: frac_le)
  have "(0::real) < 1 / 2 ^ a" by simp
  hence "1 / r \<le> 1 / (1 / 2 ^ a)" using assms(1) by (intro frac_le) simp_all
  thus "1 / r \<le> 2 ^ a" by simp
qed

lemma inv_factor_range:
  assumes "1 / 2 ^ 500 \<le> s" "s \<le> 2 ^ 500"
  shows "inv_factor (Num s) =
      Num (round64_real (1 / round64_real (sqrt (round64_real
             (round64_real (2 * pi) * round64_real (s * s))))))"
    and "1 / 2 ^ 502 \<le> round64_real (1 / round64_real (sqrt (round64_real
             (round64_real (2 * pi) * round64_real (s * s)))))"
    and "round64_real (1 / round64_real (sqrt (round64_real
             (round64_real (2 * pi) * round64_real (s * s))))) \<le> 2 ^ 499"
proof -
  let ?c = "round64_real (2 * pi)"
  let ?r1 = "round64_real (s * s)"
  let ?r2 = "round64_real (?c * ?r1)"
  let ?r3 = "round64_real (sqrt ?r2)"
  let ?r4 = "round64_real (1 / ?r3)"
  have z1: "1 / 2 ^ (500 + 500) \<le> s * s" "s * s \<le> 2 ^ (500 + 500)"
    using assms by (rule square_between)+
  have r1: "round64 (Num (s * s)) = Num ?r1" "1 / 2 ^ (998 + 2) \<le> ?r1" "?r1 \<le> 2 ^ 1000"
    using round64_between [of 1000 "s * s" 1000] z1 by simp_all
  have z2: "1 / 2 ^ 998 \<le> ?c * ?r1" "?c * ?r1 \<le> 2 ^ (1000 + 3)"
    using two_pi_rounded(2,3) r1(2,3) by (rule scaled_between)+
  have r2: "round64 (Num (?c * ?r1)) = Num ?r2" "1 / 2 ^ (499 + 499) \<le> ?r2"
    "?r2 \<le> 2 ^ (502 + 502)"
  proof -
    from round64_between [of 998 "?c * ?r1" 1003] z2
    have a: "round64 (Num (?c * ?r1)) = Num ?r2" "1 / 2 ^ 998 \<le> ?r2" "?r2 \<le> 2 ^ 1003"
      by simp_all
    show "round64 (Num (?c * ?r1)) = Num ?r2" by (rule a(1))
    show "1 / 2 ^ (499 + 499) \<le> ?r2" using a(2) by simp
    have "(2::real) ^ 1003 \<le> 2 ^ (502 + 502)" by (intro power_increasing) simp_all
    with a(3) show "?r2 \<le> 2 ^ (502 + 502)" by (rule order_trans)
  qed
  have z3: "1 / 2 ^ 499 \<le> sqrt ?r2" "sqrt ?r2 \<le> 2 ^ 502"
    using r2(2,3) by (rule sqrt_between)+
  have r3: "round64 (Num (sqrt ?r2)) = Num ?r3" "1 / 2 ^ 499 \<le> ?r3" "?r3 \<le> 2 ^ 502"
    using round64_between [of 499 "sqrt ?r2" 502] z3 by simp_all
  have z4: "1 / 2 ^ 502 \<le> 1 / ?r3" "1 / ?r3 \<le> 2 ^ 499" "?r3 \<noteq> 0"
    using r3(2,3) by (rule inverse_between)+
  have r4: "round64 (Num (1 / ?r3)) = Num ?r4" "1 / 2 ^ 502 \<le> ?r4" "?r4 \<le> 2 ^ 499"
    using round64_between [of 502 "1 / ?r3" 499] z4(1,2) by simp_all
  have nonneg: "\<not> ?r2 < 0"
  proof -
    have "(0::real) \<le> 1 / 2 ^ (499 + 499)" by simp
    with r2(2) show ?thesis by linarith
  qed
  have step1: "fl_mul (Num s) (Num s) = Num ?r1"
    by (simp only: fl_mul_def num_mul.simps r1(1))
  have "fl_mul (fl_mul (Num 2) Math_PI) (fl_mul (Num s) (Num s)) = fl_mul (Num ?c) (Num ?r1)"
    by (simp only: two_pi_rounded(1) step1)
  also have "\<dots> = Num ?r2" by (simp only: fl_mul_def num_mul.simps r2(1))
  finally have step2: "fl_mul (fl_mul (Num 2) Math_PI) (fl_mul (Num s) (Num s)) = Num ?r2" .
  have "Math_sqrt (Num ?r2) = Num (sqrt ?r2)" using nonneg by simp
  hence step3: "fl_sqrt (fl_mul (fl_mul (Num 2) Math_PI) (fl_mul (Num s) (Num s))) = Num ?r3"
    by (simp only: step2 fl_sqrt_def r3(1))
  have "num_div (Num 1) (Num ?r3) = Num (1 / ?r3)" using z4(3) by simp
  thus "inv_factor (Num s) = Num ?r4"
    by (simp only: inv_factor_def step3 fl_div_def r4(1))
  show "1 / 2 ^ 502 \<le> ?r4" by (rule r4(2))
  show "?r4 \<le> 2 ^ 499" by (rule r4(3))
qed


lemma normalPDF_in_range:
  assumes "1 / 2 ^ 500 \<le> s" "s \<le> 2 ^ 500"
  shows "\<exists>e. exp_factor (Num x) (Num mu) (Num s) = Num e \<and> 0 \<le> e \<and> e \<le> 1
    \<and> normalPDF (Num x) (Num mu) (Num s) =
        Num (round64_real (round64_real (1 / round64_real (sqrt (round64_real
               (round64_real (2 * pi) * round64_real (s * s))))) * e))"
proof -
  let ?inv = "round64_real (1 / round64_real (sqrt (round64_real
               (round64_real (2 * pi) * round64_real (s * s)))))"
  note inv = inv_factor_range [OF assms]
  have ipos: "0 \<le> ?inv" using inv(2) by (rule order_trans [rotated]) simp
  have "0 < s" using assms(1) by (rule less_le_trans [rotated]) simp
  hence "s \<noteq> 0" by simp
  from factor_not_NaN [OF this, of x mu]
    factor_range [of "fl_div (fl_sub (Num x) (Num mu)) (Num s)"]
  obtain e where e: "exp_factor (Num x) (Num mu) (Num s) = Num e" "0 \<le> e" "e \<le> 1"
    unfolding exp_factor_def by blast
  have "?inv * e \<le> ?inv * 1" using ipos e(3) by (intro mult_left_mono)
  hence "?inv * e \<le> 2 ^ 499" using inv(3) by simp
  moreover have "0 \<le> ?inv * e" using ipos e(2) by simp
  ultimately have "round64 (Num (?inv * e)) = Num (round64_real (?inv * e))"
    by (intro round64_Num_range [of _ 499]) simp_all
  hence "normalPDF (Num x) (Num mu) (Num s) = Num (round64_real (?inv * e))"
    by (simp only: normalPDF_factors inv(1) e(1) fl_mul_def num_mul.simps)
  with e show ?thesis by blast
qed

lemma normalPDF_0_0_2:
  "normalPDF (Num 0) (Num 0) (Num 2) =
     fl_div (Num 1) (fl_mul (Num 2) (fl_sqrt (fl_mul (Num 2) Math_PI)))"
  "\<not> isNaN (normalPDF (Num 0) (Num 0) (Num 2))"
  "normalPDF (Num 0) (Num 0) (Num 2) =
     Num (round64_real (1 / (2 * round64_real (sqrt (round64_real (2 * pi))))))"
proof -
  let ?c = "round64_real (2 * pi)"
  let ?rs = "round64_real (sqrt ?c)"
  have small: "2 powr (- 1022) \<le> (1::real)"
    using powr_mono [of "- 1022" 0 "2::real"] by simp
  have c: "4 \<le> ?c" "?c \<le> 8" by (rule two_pi_rounded(2), rule two_pi_rounded(3))
  have r4: "round64_real 4 = 4" using round64_real_power2 [of 2] by simp
  have "round64_real (2 * ?c) = 2 * ?c"
    using round64_real_double [of ?c] small c(1) by simp
  moreover have "round64_real (2 * (2 * ?c)) = 2 * round64_real (2 * ?c)"
    using small c(1) by (intro round64_real_double) simp
  ultimately have c4: "round64_real (?c * 4) = 4 * ?c" by (simp add: mult.commute)
  have "sqrt (4 * ?c) = sqrt 4 * sqrt ?c" by (rule real_sqrt_mult)
  hence sq4: "sqrt (4 * ?c) = 2 * sqrt ?c" by simp
  have "sqrt 4 \<le> sqrt ?c" using c(1) by (simp only: real_sqrt_le_iff)
  hence s2: "2 \<le> sqrt ?c" by simp
  have "?c \<le> 16" using c(2) by simp
  hence "sqrt ?c \<le> sqrt 16" by (simp only: real_sqrt_le_iff)
  hence s4: "sqrt ?c \<le> 4" by simp
  have rs_double: "round64_real (2 * sqrt ?c) = 2 * ?rs"
    using small s2 by (intro round64_real_double) simp
  have rs: "2 \<le> ?rs" "?rs \<le> 4"
    using round64_real_ge_power2 [of 1 "sqrt ?c"] round64_real_le_power2 [of "sqrt ?c" 2] s2 s4
    by simp_all
  have rs2: "round64_real (2 * ?rs) = 2 * ?rs"
    using round64_real_double [of ?rs] small rs(1) by simp
  let ?inv = "round64_real (1 / (2 * ?rs))"
  have q: "0 \<le> 1 / (2 * ?rs)" "1 / (2 * ?rs) \<le> 2 ^ 0" using rs(1) by simp_all
  have inv_le: "?inv \<le> 1" using round64_real_le_power2 [OF q(2)] by simp
  have inv_ge: "0 \<le> ?inv" using q(1) by (rule round64_real_nonneg)
  have rhs: "fl_div (Num 1) (fl_mul (Num 2) (fl_sqrt (fl_mul (Num 2) Math_PI))) = Num ?inv"
  proof -
    have "fl_sqrt (Num ?c) = Num ?rs"
      using round64_Num_range [of "sqrt ?c" 2] s2 s4 c(1) by (simp add: fl_sqrt_def)
    moreover have "fl_mul (Num 2) (Num ?rs) = Num (2 * ?rs)"
      using round64_Num_range [of "2 * ?rs" 3] rs rs2 by (simp add: fl_mul_def)
    moreover have "fl_div (Num 1) (Num (2 * ?rs)) = Num ?inv"
      using round64_Num_range [OF q] rs(1) by (simp add: fl_div_def)
    ultimately show ?thesis by (simp only: two_pi_rounded(1))
  qed
  have "(2::real) ^ 1 \<le> 2 ^ 500" by (intro power_increasing) simp_all
  hence up: "(2::real) \<le> 2 ^ 500" by simp
  have "1 / 2 ^ 500 \<le> (1::real)" by simp
  hence lo: "1 / 2 ^ 500 \<le> (2::real)" by linarith
  have invf: "inv_factor (Num 2) = Num ?inv"
    using inv_factor_range(1) [OF lo up] by (simp add: r4 c4 sq4 rs_double)
  have "fl_sub (Num 0) (Num 0) = Num 0" by (simp add: fl_sub_def num_sub_def)
  hence "exp_factor (Num 0) (Num 0) (Num 2) = Num 1"
    by (intro exp_factor_zero_offset) simp_all
  hence "normalPDF (Num 0) (Num 0) (Num 2) = round64 (Num ?inv)"
    by (simp add: normalPDF_factors invf fl_mul_def)
  also have "\<dots> = Num (round64_real ?inv)"
    using round64_Num_range [of ?inv 0] inv_le inv_ge by simp
  finally have lhs: "normalPDF (Num 0) (Num 0) (Num 2) = Num ?inv" by simp
  show "normalPDF (Num 0) (Num 0) (Num 2) =
     fl_div (Num 1) (fl_mul (Num 2) (fl_sqrt (fl_mul (Num 2) Math_PI)))"
    by (simp only: lhs rhs)
  show "\<not> isNaN (normalPDF (Num 0) (Num 0) (Num 2))" by (simp add: lhs)
  show "normalPDF (Num 0) (Num 0) (Num 2) =
     Num (round64_real (1 / (2 * round64_real (sqrt (round64_real (2 * pi))))))"
    by (rule lhs)
qed


lemma fl_add_big_mu_small:
  assumes "0 \<le> t" "t \<le> 1"
  shows "fl_add (Num big_mu) (Num t) = Num big_mu"
proof -
  have r: "round64_real big_mu = big_mu" unfolding big_mu_def by (rule round64_real_power2)
  have t: "round64_real (big_mu + 1) = big_mu"
    unfolding big_mu_def by (rule round64_real_tie)
  have le: "big_mu + t \<le> big_mu + 1" using assms(2) by simp
  have ge: "big_mu \<le> big_mu + t" using assms(1) by simp
  from round64_real_mono [OF le] round64_real_mono [OF ge] r t
  have s: "round64_real (big_mu + t) = big_mu" by simp
  have "0 \<le> big_mu" "big_mu + 1 \<le> 2 ^ 54" by (simp_all add: big_mu_def)
  hence b: "0 \<le> big_mu + t" "big_mu + t \<le> 2 ^ 54"
    using le ge by linarith+
  from round64_Num_range [OF b] s
  show ?thesis by (simp add: fl_add_def)
qed

lemma exp_minus_2_le_half: "exp (- 2 :: real) \<le> 1 / 2"
proof -
  have "1 + 2 \<le> exp (2::real)" by (rule exp_ge_add_one_self)
  hence "2 \<le> exp (2::real)" by simp
  hence "1 / exp (2::real) \<le> 1 / 2" by (intro divide_left_mono) simp_all
  thus ?thesis by (simp add: exp_minus inverse_eq_divide)
qed

lemma exp_factor_two_sigma:
  assumes "fl_sub x mu = Num (- 1)"
  shows "\<exists>e. exp_factor x mu (Num (1/2)) = Num e \<and> 0 \<le> e \<and> e \<le> 1 / 2"
proof -
  have r2: "round64 (Num 2) = Num 2" by (rule round64_Num_small)
  have "round64 (num_neg (Num 2)) = num_neg (round64 (Num 2))" by (rule round64_neg)
  hence m2: "round64 (Num (- 2)) = Num (- 2)" by (simp add: r2)
  have r4: "round64 (Num 4) = Num 4" by (rule round64_Num_small)
  have q: "fl_div (fl_sub x mu) (Num (1/2)) = Num (- 2)"
    by (simp add: assms fl_div_def m2)
  have p: "fl_pow (Num (- 2)) 2 = Num 4" by (simp add: fl_pow_def r4)
  let ?e = "round64_real (exp (- 2))"
  have e0: "0 \<le> exp (- 2 :: real)" by simp
  have e1: "exp (- 2 :: real) \<le> 2 ^ 0" using exp_minus_2_le_half by simp
  have "round64 (Num (exp (- 2))) = Num ?e"
    using e0 e1 by (rule round64_Num_range) simp
  hence "exp_factor x mu (Num (1/2)) = Num ?e"
    unfolding exp_factor_def q p by (simp add: fl_mul_def m2 fl_exp_def)
  moreover have "0 \<le> ?e" using e0 by (rule round64_real_nonneg)
  moreover have "?e \<le> 1 / 2"
    using round64_real_mono [OF exp_minus_2_le_half] round64_real_inverse_power2 [of 1]
    by simp
  ultimately show ?thesis by blast
qed

lemma normalPDF_big_mu:
  "\<exists>p q. normalPDF (Num big_mu) (Num big_mu) (Num (1/2)) = Num p
       \<and> normalPDF (Num (big_mu - 1)) (Num big_mu) (Num (1/2)) = Num q \<and> q < p"
proof -
  let ?i = "round64_real (1 / round64_real (sqrt (round64_real
             (round64_real (2 * pi) * round64_real (1/2 * (1/2))))))"
  have s: "1 / 2 ^ 500 \<le> (1/2 :: real)" "(1/2 :: real) \<le> 2 ^ 500"
  proof -
    have "1 / (2::real) ^ 500 \<le> 1 / 2 ^ 1"
      by (intro divide_left_mono power_increasing) simp_all
    thus "1 / 2 ^ 500 \<le> (1/2 :: real)" by simp
    have "(1::real) \<le> 2 ^ 500" by (rule one_le_power) simp
    thus "(1/2 :: real) \<le> 2 ^ 500" by linarith
  qed
  note inv = inv_factor_range [OF s]
  have ipos: "0 < ?i" using inv(2) by (rule less_le_trans [rotated]) simp
  have idem: "round64_real ?i = ?i" by (rule round64_real_idem)
  have "fl_sub (Num big_mu) (Num big_mu) = Num 0" by (simp add: fl_sub_def num_sub_def)
  hence "exp_factor (Num big_mu) (Num big_mu) (Num (1/2)) = Num 1"
    by (rule exp_factor_zero_offset) simp
  moreover have "round64 (Num ?i) = Num (round64_real ?i)"
    using ipos inv(3) by (intro round64_Num_range [of _ 499]) simp_all
  ultimately have P: "normalPDF (Num big_mu) (Num big_mu) (Num (1/2)) = Num ?i"
    by (simp only: normalPDF_factors inv(1) fl_mul_def num_mul.simps mult_1_right idem)
  have "fl_sub (Num (big_mu - 1)) (Num big_mu) = Num (- 1)"
    by (simp add: fl_sub_def num_sub_def round64_Num_small)
  from exp_factor_two_sigma [OF this] obtain e where
    e: "exp_factor (Num (big_mu - 1)) (Num big_mu) (Num (1/2)) = Num e" "0 \<le> e" "e \<le> 1 / 2"
    by blast
  have le: "?i * e \<le> ?i / 2" using ipos e(3) by simp
  have ge: "0 \<le> ?i * e" using ipos e(2) by simp
  have "?i / 2 \<le> 2 ^ 499" using inv(3) ipos by linarith
  with le have "?i * e \<le> 2 ^ 499" by linarith
  with ge have "round64 (Num (?i * e)) = Num (round64_real (?i * e))"
    by (intro round64_Num_range [of _ 499]) simp_all
  hence Q: "normalPDF (Num (big_mu - 1)) (Num big_mu) (Num (1/2)) = Num (round64_real (?i * e))"
    by (simp only: normalPDF_factors inv(1) e(1) fl_mul_def num_mul.simps)
  have "2 powr (- 1022) = 1 / (2::real) ^ 1022" by (simp add: powr_minus_divide)
  also have "\<dots> \<le> 1 / 2 ^ 503"
    by (intro divide_left_mono power_increasing) simp_all
  also have "\<dots> = (1 / 2 ^ 502) / 2" by simp
  also have "\<dots> \<le> ?i / 2" using inv(2) by (intro divide_right_mono) simp_all
  finally have "2 powr (- 1022) \<le> \<bar>?i / 2\<bar>" using ipos by simp
  hence "round64_real (2 * (?i / 2)) = 2 * round64_real (?i / 2)"
    by (rule round64_real_double)
  hence half: "round64_real (?i / 2) = ?i / 2" by (simp add: idem)
  have "round64_real (?i * e) \<le> round64_real (?i / 2)" using le by (rule round64_real_mono)
  hence "round64_real (?i * e) < ?i" using half ipos by linarith
  with P Q show ?thesis by blast
qed

lemma round64_real_error_ulp: "\<bar>round64_real x - x\<bar> \<le> ulp64 x / 2"
proof (cases "x = 0")
  case True
  thus ?thesis using ulp64_pos [of 0] by simp
next
  case False
  let ?u = "ulp64 x"
  have u: "0 < ?u" by (rule ulp64_pos)
  have "round64_real x - x = (of_int (round_half_even (x / ?u)) - x / ?u) * ?u"
    using False u by (simp add: round64_real_def algebra_simps)
  hence "\<bar>round64_real x - x\<bar> = \<bar>of_int (round_half_even (x / ?u)) - x / ?u\<bar> * ?u"
    using u by (simp add: abs_mult)
  also have "\<dots> \<le> (1/2) * ?u"
    using round_half_even_near [of "x / ?u"] u by (intro mult_right_mono) simp_all
  finally show ?thesis by simp
qed

lemma ulp64_le_power2:
  assumes "\<bar>x\<bar> \<le> 2 ^ k"
  shows "ulp64 x \<le> 2 ^ k / 2 ^ 52"
proof -
  have "exponent64 x \<le> int k"
  proof (cases "x = 0")
    case True
    thus ?thesis by (simp add: exponent64_def log_def)
  next
    case False
    hence "0 < \<bar>x\<bar>" by simp
    hence "log 2 \<bar>x\<bar> \<le> log 2 (2 ^ k)"
      using assms by (subst log_le_cancel_iff) simp_all
    also have "log 2 (2 ^ k) = real k" by (simp add: log_nat_power)
    finally have "log 2 \<bar>x\<bar> \<le> real k" .
    hence "\<lfloor>log 2 \<bar>x\<bar>\<rfloor> \<le> int k" by (simp add: floor_le_iff)
    thus ?thesis by (simp add: exponent64_def)
  qed
  hence "real_of_int (exponent64 x) - 52 \<le> real k - 52" by simp
  hence "ulp64 x \<le> 2 powr (real k - 52)" unfolding ulp64_def by simp
  also have "\<dots> = 2 powr real k / 2 powr 52" by (rule powr_diff)
  also have "\<dots> = 2 ^ k / 2 ^ 52" by (simp add: powr_realpow)
  finally show ?thesis .
qed

lemma round64_real_error:
  assumes "\<bar>x\<bar> \<le> 2 ^ k"
  shows "\<bar>round64_real x - x\<bar> \<le> 2 ^ k / 2 ^ 53"
proof -
  have "\<bar>round64_real x - x\<bar> \<le> ulp64 x / 2" by (rule round64_real_error_ulp)
  also have "\<dots> \<le> (2 ^ k / 2 ^ 52) / 2"
    using ulp64_le_power2 [OF assms] by simp
  also have "\<dots> = 2 ^ k / 2 ^ 53" by simp
  finally show ?thesis .
qed

lemma sqrt_diff_bound:
  fixes a b :: real
  assumes "4 \<le> a" "4 \<le> b"
  shows "\<bar>sqrt a - sqrt b\<bar> \<le> \<bar>a - b\<bar> / 4"
proof -
  have sa: "2 \<le> sqrt a"
    using real_sqrt_le_mono [OF assms(1)] by simp
  have sb: "2 \<le> sqrt b"
    using real_sqrt_le_mono [OF assms(2)] by simp
  have "(sqrt a - sqrt b) * (sqrt a + sqrt b) = a - b"
    using assms by (simp add: algebra_simps)
  hence "\<bar>a - b\<bar> = \<bar>sqrt a - sqrt b\<bar> * \<bar>sqrt a + sqrt b\<bar>"
    by (simp only: abs_mult [symmetric])
  also have "\<bar>sqrt a + sqrt b\<bar> = sqrt a + sqrt b" using sa sb by simp
  finally have e: "\<bar>a - b\<bar> = \<bar>sqrt a - sqrt b\<bar> * (sqrt a + sqrt b)" .
  have "\<bar>sqrt a - sqrt b\<bar> * 4 \<le> \<bar>sqrt a - sqrt b\<bar> * (sqrt a + sqrt b)"
    using sa sb by (intro mult_left_mono) simp_all
  with e show ?thesis by simp
qed

lemma inverse_diff_bound:
  fixes a b :: real
  assumes "2 \<le> a" "2 \<le> b"
  shows "\<bar>1 / (2 * a) - 1 / (2 * b)\<bar> \<le> \<bar>a - b\<bar> / 8"
proof -
  have pos: "0 < a" "0 < b" using assms by simp_all
  have "1 / (2 * a) - 1 / (2 * b) = (b - a) / (2 * a * b)"
    using pos by (simp add: field_simps)
  hence "\<bar>1 / (2 * a) - 1 / (2 * b)\<bar> = \<bar>a - b\<bar> / (2 * a * b)"
    using pos by (simp add: abs_mult abs_minus_commute)
  also have "\<dots> \<le> \<bar>a - b\<bar> / 8"
  proof (rule divide_left_mono)
    have "2 * 2 \<le> a * b" using assms by (intro mult_mono) simp_all
    thus "8 \<le> 2 * a * b" by simp
    show "0 \<le> \<bar>a - b\<bar>" by simp
    show "0 < 2 * a * b * 8" using pos by simp
  qed
  finally show ?thesis .
qed

lemma normalPDF_0_0_2_close:
  "\<exists>v. normalPDF (Num 0) (Num 0) (Num 2) = Num v \<and> \<bar>v - 1 / (2 * sqrt (2 * pi))\<bar> \<le> 1 / 2 ^ 52"
proof -
  let ?c = "round64_real (2 * pi)"
  let ?rs = "round64_real (sqrt ?c)"
  let ?inv = "round64_real (1 / (2 * ?rs))"
  have c: "4 \<le> ?c" "?c \<le> 8" by (rule two_pi_rounded(2), rule two_pi_rounded(3))
  have p: "4 \<le> 2 * pi" "2 * pi \<le> 2 ^ 3" using pi_ge_two pi_less_4 by simp_all
  have "\<bar>2 * pi\<bar> \<le> 2 ^ 3" using p by simp
  from round64_real_error [OF this]
  have ec: "\<bar>?c - 2 * pi\<bar> \<le> 1 / 2 ^ 50" by simp
  have "\<bar>sqrt ?c - sqrt (2 * pi)\<bar> \<le> \<bar>?c - 2 * pi\<bar> / 4"
    using c(1) p(1) by (rule sqrt_diff_bound)
  hence es: "\<bar>sqrt ?c - sqrt (2 * pi)\<bar> \<le> 1 / 2 ^ 52" using ec by simp
  have "sqrt 4 \<le> sqrt ?c" using c(1) by (simp only: real_sqrt_le_iff)
  hence s2: "2 \<le> sqrt ?c" by simp
  have "?c \<le> 16" using c(2) by simp
  hence "sqrt ?c \<le> sqrt 16" by (simp only: real_sqrt_le_iff)
  hence s4: "sqrt ?c \<le> 4" by simp
  have "\<bar>sqrt ?c\<bar> \<le> 2 ^ 2" using s2 s4 by simp
  from round64_real_error [OF this]
  have er: "\<bar>?rs - sqrt ?c\<bar> \<le> 1 / 2 ^ 51" by simp
  have rs: "2 \<le> ?rs" using round64_real_ge_power2 [of 1 "sqrt ?c"] s2 by simp
  have "sqrt 4 \<le> sqrt (2 * pi)" using p(1) by (simp only: real_sqrt_le_iff)
  hence t2: "2 \<le> sqrt (2 * pi)" by simp
  have "\<bar>?rs - sqrt (2 * pi)\<bar> \<le> \<bar>?rs - sqrt ?c\<bar> + \<bar>sqrt ?c - sqrt (2 * pi)\<bar>" by simp
  hence "\<bar>?rs - sqrt (2 * pi)\<bar> \<le> 1 / 2 ^ 51 + 1 / 2 ^ 52" using er es by linarith
  hence "\<bar>?rs - sqrt (2 * pi)\<bar> \<le> 1 / 2 ^ 50" by simp
  moreover have "\<bar>1 / (2 * ?rs) - 1 / (2 * sqrt (2 * pi))\<bar> \<le> \<bar>?rs - sqrt (2 * pi)\<bar> / 8"
    using rs t2 by (rule inverse_diff_bound)
  ultimately have ei: "\<bar>1 / (2 * ?rs) - 1 / (2 * sqrt (2 * pi))\<bar> \<le> 1 / 2 ^ 53" by simp
  have "0 \<le> 1 / (2 * ?rs)" "1 / (2 * ?rs) \<le> 1" using rs by simp_all
  hence "\<bar>1 / (2 * ?rs)\<bar> \<le> 2 ^ 0" by simp
  from round64_real_error [OF this]
  have ev: "\<bar>?inv - 1 / (2 * ?rs)\<bar> \<le> 1 / 2 ^ 53" by simp
  have "\<bar>?inv - 1 / (2 * sqrt (2 * pi))\<bar>
      \<le> \<bar>?inv - 1 / (2 * ?rs)\<bar> + \<bar>1 / (2 * ?rs) - 1 / (2 * sqrt (2 * pi))\<bar>" by simp
  hence "\<bar>?inv - 1 / (2 * sqrt (2 * pi))\<bar> \<le> 1 / 2 ^ 53 + 1 / 2 ^ 53" using ev ei by linarith
  hence close: "\<bar>?inv - 1 / (2 * sqrt (2 * pi))\<bar> \<le> 1 / 2 ^ 52" by simp
  from close normalPDF_0_0_2(3) show ?thesis by blast
qed


lemma round64_real_rel_error:
  assumes "2 powr (- 1022) \<le> \<bar>x\<bar>"
  shows "\<bar>round64_real x - x\<bar> \<le> \<bar>x\<bar> / 2 ^ 53"
proof -
  have pos: "0 < \<bar>x\<bar>" using assms by (rule less_le_trans [rotated]) simp
  have low: "2 powr of_int (exponent64 x) \<le> \<bar>x\<bar>"
  proof (cases "- 1022 < exponent64 x")
    case True
    hence "- 1022 < exponent64 \<bar>x\<bar>" by (simp add: exponent64_def)
    from exponent64_lower [OF pos this] show ?thesis by (simp add: exponent64_def)
  next
    case False
    hence "exponent64 x = - 1022" using exponent64_ge [of x] by linarith
    thus ?thesis using assms by simp
  qed
  hence "2 ^ 52 * ulp64 x \<le> \<bar>x\<bar>" by (simp only: ulp64_scale')
  hence "ulp64 x \<le> \<bar>x\<bar> / 2 ^ 52" by (simp add: field_simps)
  hence "ulp64 x / 2 \<le> (\<bar>x\<bar> / 2 ^ 52) / 2" by (rule divide_right_mono) simp
  moreover have "\<bar>round64_real x - x\<bar> \<le> ulp64 x / 2" by (rule round64_real_error_ulp)
  ultimately show ?thesis by simp
qed

lemma round64_real_rel_bounds:
  assumes "k \<le> 1022" "1 / 2 ^ k \<le> x"
  shows "x * (1 - 1 / 2 ^ 53) \<le> round64_real x" "round64_real x \<le> x * (1 + 1 / 2 ^ 53)"
proof -
  have "(0::real) < 1 / 2 ^ k" by simp
  hence pos: "0 < x" using assms(2) by (rule less_le_trans)
  have "2 powr (- 1022) = 1 / (2::real) ^ 1022" by (simp add: powr_minus_divide)
  also have "\<dots> \<le> 1 / 2 ^ k"
    using assms(1) by (intro divide_left_mono power_increasing) simp_all
  finally have "2 powr (- 1022) \<le> \<bar>x\<bar>" using assms(2) pos by simp
  from round64_real_rel_error [OF this]
  have e: "\<bar>round64_real x - x\<bar> \<le> x / 2 ^ 53" using pos by simp
  have d: "x * (1 - 1 / 2 ^ 53) = x - x / 2 ^ 53" "x * (1 + 1 / 2 ^ 53) = x + x / 2 ^ 53"
    by (simp_all only: right_diff_distrib distrib_left mult_1_right times_divide_eq_right)
  show "x * (1 - 1 / 2 ^ 53) \<le> round64_real x" unfolding d using e by linarith
  show "round64_real x \<le> x * (1 + 1 / 2 ^ 53)" unfolding d using e by linarith
qed

lemma rel_factors:
  fixes u :: real
  assumes "0 \<le> u" "u \<le> 1 / 8"
  shows "1 + u \<le> (1 + 8 * u) * (1 - u) ^ 3" "(1 - 8 * u) * (1 + u) ^ 3 \<le> 1 - u"
proof -
  have b: "1 + real 3 * (- u) \<le> (1 + (- u)) ^ 3"
    using assms by (intro Bernoulli_inequality) simp
  hence l3: "1 - 3 * u \<le> (1 - u) ^ 3" by simp
  have uu: "u * u \<le> u * (1 / 8)" using assms by (intro mult_left_mono) simp_all
  have "(1 + 8 * u) * (1 - 3 * u) \<le> (1 + 8 * u) * (1 - u) ^ 3"
    using l3 assms by (intro mult_left_mono) simp_all
  moreover have "(1 + 8 * u) * (1 - 3 * u) = 1 + 5 * u - 24 * (u * u)"
    by (simp add: algebra_simps)
  ultimately show "1 + u \<le> (1 + 8 * u) * (1 - u) ^ 3" using uu assms by linarith
  have uuu: "u * u * u \<le> u * u * (1 / 8)" using assms by (intro mult_left_mono) simp_all
  have c: "(1 + u) ^ 3 = 1 + 3 * u + 3 * (u * u) + u * u * u"
    by (simp add: power3_eq_cube algebra_simps)
  have u3: "(1 + u) ^ 3 \<le> 1 + 4 * u" unfolding c using uu uuu assms by linarith
  have "(1 - 8 * u) * (1 + u) ^ 3 \<le> (1 - 8 * u) * (1 + 4 * u)"
    using u3 assms by (intro mult_left_mono) simp_all
  moreover have "(1 - 8 * u) * (1 + 4 * u) = 1 - 4 * u - 32 * (u * u)"
    by (simp add: algebra_simps)
  moreover have "0 \<le> u * u" by simp
  ultimately show "(1 - 8 * u) * (1 + u) ^ 3 \<le> 1 - u" using assms by linarith
qed


lemma inv_chain:
  fixes A L U r2 r3 r4 :: real
  assumes "0 < A" "0 < L" "L \<le> 1" "1 \<le> U"
    and "A * L ^ 3 \<le> r2" "r2 \<le> A * U ^ 3"
    and "sqrt r2 * L \<le> r3" "r3 \<le> sqrt r2 * U"
    and "(1 / r3) * L \<le> r4" "r4 \<le> (1 / r3) * U"
  shows "L / (sqrt A * U ^ 3) \<le> r4" "r4 \<le> U / (sqrt A * L ^ 3)"
proof -
  have U0: "0 < U" using assms(4) by simp
  have sA: "0 < sqrt A" using assms(1) by simp
  have "L ^ 3 * L \<le> L ^ 3 * 1" using assms(2,3) by (intro mult_left_mono) simp_all
  hence l43: "L ^ 4 \<le> L ^ 3" by (simp add: power_eq_if)
  have "U ^ 3 * 1 \<le> U ^ 3 * U" using assms(4) U0 by (intro mult_left_mono) simp_all
  hence u34: "U ^ 3 \<le> U ^ 4" by (simp add: power_eq_if)
  have "A * L ^ 4 \<le> A * L ^ 3" using l43 assms(1) by (intro mult_left_mono) simp_all
  hence lo2: "A * L ^ 4 \<le> r2" using assms(5) by linarith
  have "A * U ^ 3 \<le> A * U ^ 4" using u34 assms(1) by (intro mult_left_mono) simp_all
  hence hi2: "r2 \<le> A * U ^ 4" using assms(6) by linarith
  have sq4: "sqrt (x ^ 4) = x ^ 2" if "0 \<le> x" for x :: real
  proof -
    have "x ^ 4 = (x ^ 2) ^ 2" by simp
    hence "sqrt (x ^ 4) = \<bar>x ^ 2\<bar>" by (simp only: real_sqrt_abs)
    thus ?thesis by simp
  qed
  have "sqrt (A * L ^ 4) \<le> sqrt r2" using lo2 by (simp only: real_sqrt_le_iff)
  hence slo: "sqrt A * L ^ 2 \<le> sqrt r2"
    using assms(2) by (simp add: real_sqrt_mult sq4)
  have "sqrt r2 \<le> sqrt (A * U ^ 4)" using hi2 by (simp only: real_sqrt_le_iff)
  hence shi: "sqrt r2 \<le> sqrt A * U ^ 2"
    using U0 by (simp add: real_sqrt_mult sq4)
  have "sqrt A * L ^ 2 * L \<le> sqrt r2 * L" using slo assms(2) by (intro mult_right_mono) simp_all
  hence lo3: "sqrt A * L ^ 3 \<le> r3" using assms(7) by (simp add: power_eq_if)
  have "sqrt r2 * U \<le> sqrt A * U ^ 2 * U" using shi U0 by (intro mult_right_mono) simp_all
  hence hi3: "r3 \<le> sqrt A * U ^ 3" using assms(8) by (simp add: power_eq_if)
  have p3: "0 < sqrt A * L ^ 3" using sA assms(2) by simp
  hence r3pos: "0 < r3" using lo3 by linarith
  have i_hi: "1 / r3 \<le> 1 / (sqrt A * L ^ 3)" using lo3 p3 by (intro divide_left_mono) simp_all
  have i_lo: "1 / (sqrt A * U ^ 3) \<le> 1 / r3" using hi3 r3pos by (intro divide_left_mono) simp_all
  have "(1 / (sqrt A * U ^ 3)) * L \<le> (1 / r3) * L"
    using i_lo assms(2) by (intro mult_right_mono) simp_all
  thus "L / (sqrt A * U ^ 3) \<le> r4" using assms(9) by simp
  have "(1 / r3) * U \<le> (1 / (sqrt A * L ^ 3)) * U"
    using i_hi U0 by (intro mult_right_mono) simp_all
  thus "r4 \<le> U / (sqrt A * L ^ 3)" using assms(10) by simp
qed

lemma inv_chain_close:
  fixes B u r4 :: real
  assumes "0 < B" "0 \<le> u" "u \<le> 1 / 8"
    and "(1 - u) / (B * (1 + u) ^ 3) \<le> r4" "r4 \<le> (1 + u) / (B * (1 - u) ^ 3)"
  shows "\<bar>r4 - 1 / B\<bar> \<le> (1 / B) * (8 * u)"
proof -
  have L0: "0 < (1 - u) ^ 3" using assms(2,3) by simp
  have U0: "0 < (1 + u) ^ 3" using assms(2) by simp
  note f = rel_factors [OF assms(2,3)]
  have "(1 + u) / (1 - u) ^ 3 \<le> 1 + 8 * u"
    using f(1) L0 by (simp add: pos_divide_le_eq)
  hence "((1 + u) / (1 - u) ^ 3) / B \<le> (1 + 8 * u) / B"
    using assms(1) by (intro divide_right_mono) simp_all
  hence hi: "r4 \<le> (1 + 8 * u) / B" using assms(5) by (simp add: mult.commute)
  have "1 - 8 * u \<le> (1 - u) / (1 + u) ^ 3"
    using f(2) U0 by (simp add: pos_le_divide_eq)
  hence "(1 - 8 * u) / B \<le> ((1 - u) / (1 + u) ^ 3) / B"
    using assms(1) by (intro divide_right_mono) simp_all
  hence lo: "(1 - 8 * u) / B \<le> r4" using assms(4) by (simp add: mult.commute)
  define e where "e = (1 / B) * (8 * u)"
  define v where "v = 1 / B"
  have "(1 + 8 * u) / B = v + e"
    by (simp add: add_divide_distrib e_def v_def)
  moreover have "(1 - 8 * u) / B = v - e"
    by (simp add: diff_divide_distrib e_def v_def)
  ultimately have "r4 \<le> v + e" "v - e \<le> r4" using lo hi by simp_all
  hence "\<bar>r4 - v\<bar> \<le> e" by linarith
  thus ?thesis by (simp only: e_def v_def)
qed


lemma inv_factor_accuracy:
  assumes "1 / 2 ^ 500 \<le> s" "s \<le> 2 ^ 500"
  shows "\<bar>round64_real (1 / round64_real (sqrt (round64_real
             (round64_real (2 * pi) * round64_real (s * s))))) - 1 / sqrt (2 * pi * s\<^sup>2)\<bar>
         \<le> (1 / sqrt (2 * pi * s\<^sup>2)) / 2 ^ 50"
proof -
  let ?c = "round64_real (2 * pi)"
  let ?r1 = "round64_real (s * s)"
  let ?r2 = "round64_real (?c * ?r1)"
  let ?r3 = "round64_real (sqrt ?r2)"
  let ?r4 = "round64_real (1 / ?r3)"
  have z1: "1 / 2 ^ (500 + 500) \<le> s * s" "s * s \<le> 2 ^ (500 + 500)"
    using assms by (rule square_between)+
  have r1: "1 / 2 ^ (998 + 2) \<le> ?r1" "?r1 \<le> 2 ^ 1000"
    using round64_between [of 1000 "s * s" 1000] z1 by simp_all
  have z2: "1 / 2 ^ 998 \<le> ?c * ?r1" "?c * ?r1 \<le> 2 ^ (1000 + 3)"
    using two_pi_rounded(2,3) r1 by (rule scaled_between)+
  have r2: "1 / 2 ^ (499 + 499) \<le> ?r2" "?r2 \<le> 2 ^ (502 + 502)"
  proof -
    from round64_between [of 998 "?c * ?r1" 1003] z2
    have a: "1 / 2 ^ 998 \<le> ?r2" "?r2 \<le> 2 ^ 1003" by simp_all
    show "1 / 2 ^ (499 + 499) \<le> ?r2" using a(1) by simp
    have "(2::real) ^ 1003 \<le> 2 ^ (502 + 502)" by (intro power_increasing) simp_all
    with a(2) show "?r2 \<le> 2 ^ (502 + 502)" by (rule order_trans)
  qed
  have z3: "1 / 2 ^ 499 \<le> sqrt ?r2" "sqrt ?r2 \<le> 2 ^ 502"
    using r2 by (rule sqrt_between)+
  have r3: "1 / 2 ^ 499 \<le> ?r3" "?r3 \<le> 2 ^ 502"
    using round64_between [of 499 "sqrt ?r2" 502] z3 by simp_all
  have z4: "1 / 2 ^ 502 \<le> 1 / ?r3"
    using r3 by (rule inverse_between)
  define u :: real where "u = 1 / 2 ^ 53"
  define L where "L = 1 - u"
  define U where "U = 1 + u"
  define A where "A = 2 * pi * s\<^sup>2"
  have u: "0 \<le> u" "u \<le> 1 / 8" by (simp_all add: u_def)
  have u8: "8 * u = 1 / 2 ^ 50" by (simp add: u_def)
  have LU: "0 < L" "L \<le> 1" "1 \<le> U" using u by (simp_all add: L_def U_def)
  have rb: "x * L \<le> round64_real x \<and> round64_real x \<le> x * U"
    if "k \<le> 1022" "1 / 2 ^ k \<le> x" for k x
    using round64_real_rel_bounds [OF that] unfolding L_def U_def u_def by blast
  have "(0::real) < 1 / 2 ^ 500" by simp
  hence spos: "0 < s" using assms(1) by (rule less_le_trans)
  hence Apos: "0 < A" by (simp add: A_def)
  have b1: "s * s * L \<le> ?r1" "?r1 \<le> s * s * U"
    using rb [of "500 + 500" "s * s"] z1(1) by simp_all
  have "1 / 2 ^ 0 \<le> 2 * pi" using pi_ge_two by simp
  hence bc: "2 * pi * L \<le> ?c" "?c \<le> 2 * pi * U"
    using rb [of 0 "2 * pi"] by simp_all
  have c0: "0 \<le> ?c" using two_pi_rounded(2) by linarith
  have r10: "0 \<le> ?r1" by (rule round64_real_nonneg) simp
  have plo: "(2 * pi * L) * (s * s * L) \<le> ?c * ?r1"
    using bc(1) b1(1) c0 spos LU(1) by (intro mult_mono) simp_all
  have phi: "?c * ?r1 \<le> (2 * pi * U) * (s * s * U)"
    using bc(2) b1(2) r10 LU(3) by (intro mult_mono) simp_all
  have b2: "?c * ?r1 * L \<le> ?r2" "?r2 \<le> ?c * ?r1 * U"
    using rb [of 998 "?c * ?r1"] z2(1) by simp_all
  have "(2 * pi * L) * (s * s * L) * L \<le> ?c * ?r1 * L"
    using plo LU(1) by (intro mult_right_mono) simp_all
  moreover have "(2 * pi * L) * (s * s * L) * L = A * L ^ 3"
    by (simp add: A_def power2_eq_square power3_eq_cube)
  ultimately have lo2: "A * L ^ 3 \<le> ?r2" using b2(1) by linarith
  have "?c * ?r1 * U \<le> (2 * pi * U) * (s * s * U) * U"
    using phi LU(3) by (intro mult_right_mono) simp_all
  moreover have "(2 * pi * U) * (s * s * U) * U = A * U ^ 3"
    by (simp add: A_def power2_eq_square power3_eq_cube)
  ultimately have hi2: "?r2 \<le> A * U ^ 3" using b2(2) by linarith
  have b3: "sqrt ?r2 * L \<le> ?r3" "?r3 \<le> sqrt ?r2 * U"
    using rb [of 499 "sqrt ?r2"] z3(1) by simp_all
  have b4: "(1 / ?r3) * L \<le> ?r4" "?r4 \<le> (1 / ?r3) * U"
    using rb [of 502 "1 / ?r3"] z4 by simp_all
  note ch = inv_chain [OF Apos LU lo2 hi2 b3 b4]
  have sA: "0 < sqrt A" using Apos by simp
  have "\<bar>?r4 - 1 / sqrt A\<bar> \<le> (1 / sqrt A) * (8 * u)"
    using sA u ch unfolding L_def U_def by (rule inv_chain_close)
  thus ?thesis unfolding u8 A_def by simp
qed


lemma round64_real_mixed_error:
  "\<bar>round64_real y - y\<bar> \<le> \<bar>y\<bar> / 2 ^ 53 + 1 / 2 ^ 1075"
proof (cases "y = 0 \<or> 2 powr (- 1022) \<le> \<bar>y\<bar>")
  case True
  then consider "y = 0" | "2 powr (- 1022) \<le> \<bar>y\<bar>" by blast
  then show ?thesis
  proof cases
    case 1
    thus ?thesis by simp
  next
    case 2
    from round64_real_rel_error [OF 2]
    have "\<bar>round64_real y - y\<bar> \<le> \<bar>y\<bar> / 2 ^ 53" .
    moreover have "(0::real) \<le> 1 / 2 ^ 1075" by simp
    ultimately show ?thesis by linarith
  qed
next
  case False
  hence small: "\<bar>y\<bar> < 2 powr (- 1022)" and pos: "0 < \<bar>y\<bar>" by auto
  have "exponent64 y = - 1022"
  proof -
    have "log 2 \<bar>y\<bar> < log 2 (2 powr (- 1022))"
      using small pos by (subst log_less_cancel_iff) simp_all
    hence "log 2 \<bar>y\<bar> < - 1022" by simp
    hence "\<lfloor>log 2 \<bar>y\<bar>\<rfloor> < - 1022" by (simp add: floor_less_iff)
    thus ?thesis by (simp add: exponent64_def)
  qed
  hence "ulp64 y = 2 powr (- 1074)" by (simp add: ulp64_def)
  hence "ulp64 y / 2 = 1 / 2 ^ 1075" by (simp add: powr_minus_divide)
  moreover have "\<bar>round64_real y - y\<bar> \<le> ulp64 y / 2" by (rule round64_real_error_ulp)
  moreover have "0 \<le> \<bar>y\<bar> / 2 ^ 53" by simp
  ultimately show ?thesis by linarith
qed

lemma product_close:
  fixes I inv e E v t w d :: real
  assumes "0 < I" "\<bar>inv - I\<bar> \<le> I * t" "0 \<le> e" "e \<le> 1"
    and "\<bar>v - inv * e\<bar> \<le> (inv * e) * w + d" "d \<le> I * w"
    and "0 \<le> t" "t \<le> 1" "0 \<le> w"
  shows "\<bar>v - I * E\<bar> \<le> I * (\<bar>e - E\<bar> + (t + 3 * w))"
proof -
  have It: "I * t \<le> I * 1" using assms(1,8) by (intro mult_left_mono) simp_all
  have inv2: "inv \<le> 2 * I" "0 \<le> inv" using assms(2) It by (simp_all add: abs_le_iff)
  have "inv * e \<le> (2 * I) * 1" using inv2 assms(3,4,1) by (intro mult_mono) simp_all
  hence "(inv * e) * w \<le> (2 * I) * w"
    using assms(9) by (intro mult_right_mono) simp_all
  hence a: "\<bar>v - inv * e\<bar> \<le> 3 * (I * w)" using assms(5,6) by linarith
  have "\<bar>inv * e - I * e\<bar> = \<bar>inv - I\<bar> * e"
    using assms(3) by (simp add: left_diff_distrib [symmetric] abs_mult)
  also have "\<dots> \<le> (I * t) * 1"
    using assms(2,3,4,1,7) by (intro mult_mono) simp_all
  finally have b: "\<bar>inv * e - I * e\<bar> \<le> I * t" by simp
  have c: "\<bar>I * e - I * E\<bar> = I * \<bar>e - E\<bar>"
    using assms(1) by (simp add: right_diff_distrib [symmetric] abs_mult)
  have "\<bar>v - I * E\<bar> \<le> \<bar>v - inv * e\<bar> + \<bar>inv * e - I * e\<bar> + \<bar>I * e - I * E\<bar>" by simp
  hence "\<bar>v - I * E\<bar> \<le> 3 * (I * w) + I * t + I * \<bar>e - E\<bar>" using a b c by linarith
  also have "\<dots> = I * (\<bar>e - E\<bar> + (t + 3 * w))" by (simp add: algebra_simps)
  finally show ?thesis .
qed

lemma normalPDF_close:
  assumes "1 / 2 ^ 500 \<le> s" "s \<le> 2 ^ 500"
  shows "\<exists>v e. normalPDF (Num x) (Num mu) (Num s) = Num v
           \<and> exp_factor (Num x) (Num mu) (Num s) = Num e \<and> 0 \<le> e \<and> e \<le> 1
           \<and> v = round64_real (round64_real (1 / round64_real (sqrt (round64_real
                                   (round64_real (2 * pi) * round64_real (s * s))))) * e)
           \<and> \<bar>v - 1 / sqrt (2 * pi * s\<^sup>2) * exp (- 0.5 * ((x - mu) / s)\<^sup>2)\<bar>
               \<le> 1 / sqrt (2 * pi * s\<^sup>2)
                   * (\<bar>e - exp (- 0.5 * ((x - mu) / s)\<^sup>2)\<bar> + 1 / 2 ^ 49)"
proof -
  let ?inv = "round64_real (1 / round64_real (sqrt (round64_real
               (round64_real (2 * pi) * round64_real (s * s)))))"
  define I where "I = 1 / sqrt (2 * pi * s\<^sup>2)"
  define E where "E = exp (- 0.5 * ((x - mu) / s)\<^sup>2)"
  define w :: real where "w = 1 / 2 ^ 53"
  define t :: real where "t = 1 / 2 ^ 50"
  define d :: real where "d = 1 / 2 ^ 1075"
  from normalPDF_in_range [OF assms, of x mu] obtain e where
    e: "exp_factor (Num x) (Num mu) (Num s) = Num e" "0 \<le> e" "e \<le> 1"
       "normalPDF (Num x) (Num mu) (Num s) = Num (round64_real (?inv * e))"
    by blast
  have acc: "\<bar>?inv - I\<bar> \<le> I * t"
    using inv_factor_accuracy [OF assms] by (simp add: I_def t_def)
  have "(0::real) < 1 / 2 ^ 500" by simp
  hence spos: "0 < s" using assms(1) by (rule less_le_trans)
  hence Ipos: "0 < I" by (simp add: I_def)
  note inv = inv_factor_range [OF assms]
  have invpos: "0 \<le> ?inv" using inv(2) by (rule order_trans [rotated]) simp
  have "\<bar>round64_real (?inv * e) - ?inv * e\<bar> \<le> \<bar>?inv * e\<bar> / 2 ^ 53 + 1 / 2 ^ 1075"
    by (rule round64_real_mixed_error)
  moreover have "\<bar>?inv * e\<bar> = ?inv * e" using invpos e(2) by simp
  ultimately have err: "\<bar>round64_real (?inv * e) - ?inv * e\<bar> \<le> (?inv * e) * w + d"
    by (simp add: w_def d_def)
  define H :: real where "H = 2 ^ (500 + 500)"
  have sq: "s * s \<le> H" unfolding H_def using assms by (rule square_between)
  have "(2 * pi) * (s * s) \<le> 2 ^ 3 * H"
    using pi_less_4 sq by (intro mult_mono) simp_all
  also have "\<dots> = 2 ^ (3 + (500 + 500))" unfolding H_def by (rule power_add [symmetric])
  also have "\<dots> \<le> 2 ^ (502 + 502)" by (intro power_increasing) simp_all
  finally have "2 * pi * s\<^sup>2 \<le> 2 ^ (502 + 502)"
    by (simp only: power2_eq_square mult.assoc)
  hence "sqrt (2 * pi * s\<^sup>2) \<le> sqrt (2 ^ (502 + 502))"
    by (simp only: real_sqrt_le_iff)
  also have "sqrt (2 ^ (502 + 502)) = (2::real) ^ 502"
    by (simp only: power_add real_sqrt_mult) simp
  finally have "1 / 2 ^ 502 \<le> I"
    unfolding I_def using spos by (intro divide_left_mono) simp_all
  hence "(1 / 2 ^ 502) * w \<le> I * w" by (intro mult_right_mono) (simp_all add: w_def)
  moreover have "d \<le> (1 / 2 ^ 502) * w"
  proof -
    have "(1 / 2 ^ 502) * w = 1 / (2::real) ^ (502 + 53)"
      unfolding w_def by (simp only: power_add) simp
    moreover have "1 / (2::real) ^ 1075 \<le> 1 / 2 ^ (502 + 53)"
      by (intro divide_left_mono power_increasing) simp_all
    ultimately show ?thesis by (simp only: d_def)
  qed
  ultimately have dI: "d \<le> I * w" by linarith
  have tw: "0 \<le> t" "t \<le> 1" "0 \<le> w" "t + 3 * w \<le> 1 / 2 ^ 49"
    by (simp_all add: t_def w_def)
  from product_close [OF Ipos acc e(2,3) err dI tw(1,2,3), of E]
  have "\<bar>round64_real (?inv * e) - I * E\<bar> \<le> I * (\<bar>e - E\<bar> + (t + 3 * w))" .
  also have "\<dots> \<le> I * (\<bar>e - E\<bar> + 1 / 2 ^ 49)"
    using tw(4) Ipos by (intro mult_left_mono) simp_all
  finally have "\<bar>round64_real (?inv * e) - I * E\<bar> \<le> I * (\<bar>e - E\<bar> + 1 / 2 ^ 49)" .
  with e show ?thesis unfolding I_def E_def by blast
qed





text \<open>
  C10, as the code has it: \<open>normalPDF(x, mu, -sigma)\<close> and \<open>normalPDF(x, mu, sigma)\<close> are the
  same value for all arguments, so they compare \<open>==\<close> exactly when that value is not
  \<open>NaN\<close>.
\<close>

theorem normalPDF_negated_sigma:
  "normalPDF x mu (num_neg sigma) = normalPDF x mu sigma
   \<and> strict_eq (normalPDF x mu (num_neg sigma)) (normalPDF x mu sigma)
       = (\<not> isNaN (normalPDF x mu sigma))"
  by (simp add: normalPDF_neg_sigma strict_eq_same)

theorem normalPDF_negated_sigma_witness:
  "strict_eq (normalPDF (Num 0) (Num 0) (num_neg (Num 2))) (normalPDF (Num 0) (Num 0) (Num 2))"
  using normalPDF_negated_sigma [of "Num 0" "Num 0" "Num 2"] normalPDF_0_0_2(2)
  by (simp add: strict_eq_same)

text \<open>
  The claim as stated fails at \<open>x = 1\<close>, \<open>mu = 0\<close>, \<open>sigma = 1 / 2 ^ 600 \<noteq> 0\<close>: both sides are
  \<open>NaN\<close>, and \<open>NaN == NaN\<close> is false.
\<close>

theorem normalPDF_negated_sigma_counterexample:
  "tiny_sigma \<noteq> 0
   \<and> \<not> strict_eq (normalPDF (Num 1) (Num 0) (num_neg (Num tiny_sigma)))
                  (normalPDF (Num 1) (Num 0) (Num tiny_sigma))"
  using tiny_sigma_pos
  by (simp add: normalPDF_neg_sigma normalPDF_underflow_NaN strict_eq_def)




section \<open>Properties of the generator\<close>

lemma draw_u1_first_nonzero:
  "\<forall>j<k. s !! j = 0 \<Longrightarrow> s !! k \<noteq> 0 \<Longrightarrow> draw_u1 s = Some (s !! k, sdrop (Suc k) s)"
proof (induction k arbitrary: s)
  case 0
  then show ?case by (subst draw_u1.simps) simp
next
  case (Suc k)
  have "shd s = 0" using Suc.prems(1) [rule_format, of 0] by simp
  moreover have "draw_u1 (stl s) = Some (stl s !! k, sdrop (Suc k) (stl s))"
  proof (rule Suc.IH)
    show "\<forall>j<k. stl s !! j = 0" using Suc.prems(1) by auto
    show "stl s !! k \<noteq> 0" using Suc.prems(2) by simp
  qed
  ultimately show ?case by (subst draw_u1.simps) simp
qed

lemma draw_u1_Some:
  assumes "draw_u1 s = Some r"
  shows "\<exists>k. (\<forall>j<k. s !! j = 0) \<and> s !! k \<noteq> 0 \<and> r = (s !! k, sdrop (Suc k) s)"
proof (rule draw_u1.raw_induct
    [where P = "\<lambda>s r. \<exists>k. (\<forall>j<k. s !! j = 0) \<and> s !! k \<noteq> 0 \<and> r = (s !! k, sdrop (Suc k) s)",
     OF _ assms])
  fix draw :: "real stream \<Rightarrow> (real \<times> real stream) option" and s r
  assume IH: "\<And>x y. draw x = Some y \<Longrightarrow>
      \<exists>k. (\<forall>j<k. x !! j = 0) \<and> x !! k \<noteq> 0 \<and> y = (x !! k, sdrop (Suc k) x)"
  assume body: "(if strict_eq (Num (shd s)) (Num 0) then draw (stl s) else Some (shd s, stl s)) = Some r"
  show "\<exists>k. (\<forall>j<k. s !! j = 0) \<and> s !! k \<noteq> 0 \<and> r = (s !! k, sdrop (Suc k) s)"
  proof (cases "shd s = 0")
    case True
    with body have "draw (stl s) = Some r" by simp
    from IH [OF this] obtain k where k: "\<forall>j<k. stl s !! j = 0" "stl s !! k \<noteq> 0"
      "r = (stl s !! k, sdrop (Suc k) (stl s))" by blast
    have "\<forall>j<Suc k. s !! j = 0"
    proof (intro allI impI)
      fix j assume "j < Suc k"
      thus "s !! j = 0" using True k(1) by (cases j) auto
    qed
    moreover have "s !! Suc k \<noteq> 0" using k(2) by simp
    moreover have "r = (s !! Suc k, sdrop (Suc (Suc k)) s)" using k(3) by simp
    ultimately show ?thesis by blast
  next
    case False
    with body have "r = (s !! 0, sdrop (Suc 0) s)" by simp
    moreover have "s !! 0 \<noteq> 0" using False by simp
    ultimately show ?thesis by blast
  qed
qed

lemma draw_u1_diverges:
  assumes "\<forall>k. s !! k = 0"
  shows "draw_u1 s = None"
proof (cases "draw_u1 s")
  case None
  then show ?thesis .
next
  case (Some r)
  from draw_u1_Some [OF this] obtain k where "s !! k \<noteq> 0" by blast
  with assms show ?thesis by blast
qed

lemma first_nonzero:
  assumes "\<exists>k. s !! k \<noteq> (0::real)"
  shows "\<exists>k. (\<forall>j<k. s !! j = 0) \<and> s !! k \<noteq> 0"
proof -
  define k where "k = (LEAST k. s !! k \<noteq> 0)"
  have nz: "s !! k \<noteq> 0" unfolding k_def using assms by (rule LeastI_ex)
  have "\<forall>j<k. s !! j = 0"
  proof (intro allI impI)
    fix j assume "j < k"
    hence "\<not> s !! j \<noteq> 0" unfolding k_def by (rule not_less_Least)
    thus "s !! j = 0" by simp
  qed
  with nz show ?thesis by blast
qed

lemma generateStandardNormal_cached:
  "hasSecondBoxMuller st \<Longrightarrow>
     generateStandardNormal st = Some (secondBoxMullerValue st, st\<lparr>hasSecondBoxMuller := False\<rparr>)"
  by (simp add: generateStandardNormal_def)

lemma generateStandardNormal_fresh:
  assumes "\<not> hasSecondBoxMuller st" "\<forall>j<k. Math_random st !! j = 0" "Math_random st !! k \<noteq> 0"
  shows "generateStandardNormal st =
    Some (num_mul (Math_sqrt (num_mul (Num (- 2)) (Math_log (Num (Math_random st !! k)))))
            (Math_cos (num_mul (num_mul (Num 2) Math_PI) (Num (Math_random st !! Suc k)))),
          \<lparr>hasSecondBoxMuller = True,
           secondBoxMullerValue =
             num_mul (Math_sqrt (num_mul (Num (- 2)) (Math_log (Num (Math_random st !! k)))))
               (Math_sin (num_mul (num_mul (Num 2) Math_PI) (Num (Math_random st !! Suc k)))),
           Math_random = sdrop (k + 2) (Math_random st)\<rparr>)"
proof -
  have "draw_u1 (Math_random st) = Some (Math_random st !! k, sdrop (Suc k) (Math_random st))"
    using assms(2,3) by (rule draw_u1_first_nonzero)
  moreover have "shd (sdrop (Suc k) (Math_random st)) = Math_random st !! Suc k"
    by (metis snth.simps(1) sdrop_snth add.right_neutral)
  moreover have "stl (sdrop (Suc k) (Math_random st)) = sdrop (k + 2) (Math_random st)"
    by (metis sdrop.simps(2) sdrop_stl add_2_eq_Suc')
  ultimately show ?thesis
    using assms(1) by (simp add: generateStandardNormal_def Let_def del: sdrop.simps)
qed

text \<open>
  C7: in a call of \<open>generateStandardNormal\<close> with no cached value, on a source that yields a
  nonzero value at all, the loop draws \<open>u1\<close> again as long as it is 0 and ends at the first
  nonzero draw, of index \<open>k\<close>. The call returns, the \<open>R\<close> of its result is computed from the
  logarithm of that nonzero draw, which is not the \<open>-Infinity\<close> of \<open>log(0)\<close>, \<open>u2\<close> is the
  draw after it, and \<open>k + 2\<close> draws are consumed.
\<close>

theorem generateStandardNormal_log_nonzero:
  assumes "\<not> hasSecondBoxMuller st" and "\<exists>k. Math_random st !! k \<noteq> 0"
  shows "\<exists>k. (\<forall>j<k. Math_random st !! j = 0) \<and> Math_random st !! k \<noteq> 0
           \<and> draw_u1 (Math_random st) = Some (Math_random st !! k, sdrop (Suc k) (Math_random st))
           \<and> Math_log (Num (Math_random st !! k)) \<noteq> NegInfinity
           \<and> generateStandardNormal st =
               Some (num_mul (Math_sqrt (num_mul (Num (- 2)) (Math_log (Num (Math_random st !! k)))))
                       (Math_cos (num_mul (num_mul (Num 2) Math_PI) (Num (Math_random st !! Suc k)))),
                     \<lparr>hasSecondBoxMuller = True,
                      secondBoxMullerValue =
                        num_mul (Math_sqrt (num_mul (Num (- 2)) (Math_log (Num (Math_random st !! k)))))
                          (Math_sin (num_mul (num_mul (Num 2) Math_PI) (Num (Math_random st !! Suc k)))),
                      Math_random = sdrop (k + 2) (Math_random st)\<rparr>)"
proof -
  from first_nonzero [OF assms(2)] obtain k where
    k: "\<forall>j<k. Math_random st !! j = 0" "Math_random st !! k \<noteq> 0"
    by blast
  have "Math_log (Num (Math_random st !! k)) \<noteq> NegInfinity" using k(2) by simp
  with k draw_u1_first_nonzero [OF k] generateStandardNormal_fresh [OF assms(1) k]
  show ?thesis by blast
qed

theorem generateStandardNormal_log_nonzero_witness:
  "\<not> hasSecondBoxMuller st_zero_draws
   \<and> Math_random st_zero_draws !! 0 = 0 \<and> Math_random st_zero_draws !! 1 = 0
   \<and> Math_random st_zero_draws !! 2 = 1/2
   \<and> Math_random st_zero_draws !! 3 = 1/2
   \<and> draw_u1 (Math_random st_zero_draws) = Some (1/2, sconst (1/2))
   \<and> Math_log (Num (1/2)) \<noteq> NegInfinity
   \<and> generateStandardNormal st_zero_draws =
       Some (num_mul (Math_sqrt (num_mul (Num (- 2)) (Math_log (Num (1/2)))))
               (Math_cos (num_mul (num_mul (Num 2) Math_PI) (Num (1/2)))),
             \<lparr>hasSecondBoxMuller = True,
              secondBoxMullerValue =
                num_mul (Math_sqrt (num_mul (Num (- 2)) (Math_log (Num (1/2)))))
                  (Math_sin (num_mul (num_mul (Num 2) Math_PI) (Num (1/2)))),
              Math_random = sconst (1/2)\<rparr>)"
proof -
  let ?s = "Math_random st_zero_draws"
  have s: "?s = 0 ## 0 ## sconst (1/2)" by (simp add: st_zero_draws_def)
  have c: "\<not> hasSecondBoxMuller st_zero_draws" by (simp add: st_zero_draws_def)
  have v: "?s !! 0 = 0" "?s !! 1 = 0" "?s !! 2 = 1/2" "?s !! 3 = 1/2"
    by (simp_all add: s numeral_2_eq_2 numeral_3_eq_3)
  have h: "\<exists>k. ?s !! k \<noteq> 0"
    by (rule exI [of _ 2]) (simp add: v)
  from generateStandardNormal_log_nonzero [OF c h] obtain k where
    k: "\<forall>j<k. ?s !! j = 0" "?s !! k \<noteq> 0"
     "draw_u1 ?s = Some (?s !! k, sdrop (Suc k) ?s)"
     "generateStandardNormal st_zero_draws =
        Some (num_mul (Math_sqrt (num_mul (Num (- 2)) (Math_log (Num (?s !! k)))))
                (Math_cos (num_mul (num_mul (Num 2) Math_PI) (Num (?s !! Suc k)))),
              \<lparr>hasSecondBoxMuller = True,
               secondBoxMullerValue =
                 num_mul (Math_sqrt (num_mul (Num (- 2)) (Math_log (Num (?s !! k)))))
                   (Math_sin (num_mul (num_mul (Num 2) Math_PI) (Num (?s !! Suc k)))),
               Math_random = sdrop (k + 2) ?s\<rparr>)"
    by blast
  have k2: "k = 2"
  proof (rule ccontr)
    assume "k \<noteq> 2"
    then consider "k = 0" | "k = 1" | "2 < k" by linarith
    then show False
    proof cases
      case 1 with k(2) v show False by simp
    next
      case 2 with k(2) v show False by simp
    next
      case 3 with k(1) have "?s !! 2 = 0" by blast
      with v show False by simp
    qed
  qed
  have d3: "sdrop (Suc 2) ?s = sconst (1/2)" "sdrop (2 + 2) ?s = sconst (1/2)"
    by (simp_all add: s numeral_2_eq_2)
  have S3: "Suc 2 = 3" by simp
  have 1: "draw_u1 ?s = Some (1/2, sconst (1/2))"
    using k(3) unfolding k2 d3 v by simp
  have 2: "generateStandardNormal st_zero_draws =
       Some (num_mul (Math_sqrt (num_mul (Num (- 2)) (Math_log (Num (1/2)))))
               (Math_cos (num_mul (num_mul (Num 2) Math_PI) (Num (1/2)))),
             \<lparr>hasSecondBoxMuller = True,
              secondBoxMullerValue =
                num_mul (Math_sqrt (num_mul (Num (- 2)) (Math_log (Num (1/2)))))
                  (Math_sin (num_mul (num_mul (Num 2) Math_PI) (Num (1/2)))),
              Math_random = sconst (1/2)\<rparr>)"
    using k(4) unfolding k2 d3 S3 v .
  have 3: "Math_log (Num (1/2)) \<noteq> NegInfinity" by simp
  from c v 1 2 3 show ?thesis by blast
qed

text \<open>
  C6: for every state of the generator, a call with a cached value returns that value,
  clears the flag and leaves the uniform source as it was; a call with no cached value
  (whose loop ends at the draw of index \<open>k\<close>) returns \<open>z1 = R cos \<theta>\<close>, stores
  \<open>z2 = R sin \<theta>\<close>, sets the flag and has consumed \<open>k + 2\<close> draws.
\<close>

theorem generateStandardNormal_cache:
  "(hasSecondBoxMuller st \<longrightarrow>
      generateStandardNormal st = Some (secondBoxMullerValue st, st\<lparr>hasSecondBoxMuller := False\<rparr>)
      \<and> Math_random (st\<lparr>hasSecondBoxMuller := False\<rparr>) = Math_random st)
   \<and> (\<not> hasSecondBoxMuller st \<and> (\<forall>j<k. Math_random st !! j = 0) \<and> Math_random st !! k \<noteq> 0 \<longrightarrow>
        (let R = Math_sqrt (num_mul (Num (- 2)) (Math_log (Num (Math_random st !! k))));
             theta = num_mul (num_mul (Num 2) Math_PI) (Num (Math_random st !! Suc k))
         in generateStandardNormal st =
              Some (num_mul R (Math_cos theta),
                    \<lparr>hasSecondBoxMuller = True,
                     secondBoxMullerValue = num_mul R (Math_sin theta),
                     Math_random = sdrop (k + 2) (Math_random st)\<rparr>)))"
proof (intro conjI impI)
  assume "hasSecondBoxMuller st"
  thus "generateStandardNormal st =
      Some (secondBoxMullerValue st, st\<lparr>hasSecondBoxMuller := False\<rparr>)"
    by (rule generateStandardNormal_cached)
next
  show "Math_random (st\<lparr>hasSecondBoxMuller := False\<rparr>) = Math_random st"
    by simp
next
  assume "\<not> hasSecondBoxMuller st \<and> (\<forall>j<k. Math_random st !! j = 0) \<and> Math_random st !! k \<noteq> 0"
  hence "\<not> hasSecondBoxMuller st" "\<forall>j<k. Math_random st !! j = 0" "Math_random st !! k \<noteq> 0"
    by blast+
  from generateStandardNormal_fresh [OF this]
  show "let R = Math_sqrt (num_mul (Num (- 2)) (Math_log (Num (Math_random st !! k))));
            theta = num_mul (num_mul (Num 2) Math_PI) (Num (Math_random st !! Suc k))
        in generateStandardNormal st =
             Some (num_mul R (Math_cos theta),
                   \<lparr>hasSecondBoxMuller = True,
                    secondBoxMullerValue = num_mul R (Math_sin theta),
                    Math_random = sdrop (k + 2) (Math_random st)\<rparr>)"
    unfolding Let_def .
qed

theorem generateStandardNormal_cache_witness:
  "hasSecondBoxMuller st_cached
   \<and> generateStandardNormal st_cached =
       Some (Num 3, \<lparr>hasSecondBoxMuller = False, secondBoxMullerValue = Num 3, Math_random = sconst (1/2)\<rparr>)
   \<and> \<not> hasSecondBoxMuller st_fresh \<and> Math_random st_fresh !! 0 = 0
   \<and> Math_random st_fresh !! 1 \<noteq> 0
   \<and> generateStandardNormal st_fresh =
       Some (Num 0, \<lparr>hasSecondBoxMuller = True, secondBoxMullerValue = Num (sqrt (2 * ln 2)), Math_random = sconst (1/4)\<rparr>)"
proof -
  have c: "hasSecondBoxMuller st_cached" by (simp add: st_cached_def)
  have f: "\<not> hasSecondBoxMuller st_fresh \<and> (\<forall>j<1. Math_random st_fresh !! j = 0)
    \<and> Math_random st_fresh !! 1 \<noteq> 0" by (simp add: st_fresh_def)
  from generateStandardNormal_cache [of st_cached 0] c
  have 1: "generateStandardNormal st_cached =
       Some (Num 3, \<lparr>hasSecondBoxMuller = False, secondBoxMullerValue = Num 3, Math_random = sconst (1/2)\<rparr>)"
    by (simp add: st_cached_def)
  from generateStandardNormal_cache [of st_fresh 1] f
  have 2: "generateStandardNormal st_fresh =
       Some (Num 0, \<lparr>hasSecondBoxMuller = True, secondBoxMullerValue = Num (sqrt (2 * ln 2)), Math_random = sconst (1/4)\<rparr>)"
    by (simp add: st_fresh_def Let_def Math_PI_def numeral_2_eq_2 numeral_3_eq_3 ln_div)
  from f have "Math_random st_fresh !! 0 = 0" by blast
  with c f 1 2 show ?thesis by blast
qed

section \<open>Properties of the path simulation\<close>

lemma length_positions [simp]: "length (positions sq prev zs) = length zs"
  by (induction zs arbitrary: prev) simp_all

lemma positions_append:
  "positions sq prev (zs @ [z]) =
     positions sq prev zs @ [num_add (last (prev # positions sq prev zs)) (num_mul sq z)]"
  by (induction zs arbitrary: prev) simp_all

lemma positions_nth:
  "i < length zs \<Longrightarrow>
     positions sq prev zs ! i =
       num_add (if i = 0 then prev else positions sq prev zs ! (i - 1)) (num_mul sq (zs ! i))"
proof (induction zs arbitrary: prev i)
  case Nil
  then show ?case by simp
next
  case (Cons z zs)
  show ?case
  proof (cases i)
    case 0
    then show ?thesis by simp
  next
    case (Suc j)
    with Cons.prems have "j < length zs" by simp
    from Cons.IH [OF this, of "num_add prev (num_mul sq z)"] Suc show ?thesis
      by (cases j) simp_all
  qed
qed

lemma positions_nth_foldl:
  "i < length zs \<Longrightarrow>
     positions sq prev zs ! i = foldl num_add prev (map (num_mul sq) (take (Suc i) zs))"
proof (induction zs arbitrary: prev i)
  case Nil
  then show ?case by simp
next
  case (Cons z zs)
  show ?case
  proof (cases i)
    case 0
    then show ?thesis by simp
  next
    case (Suc j)
    with Cons.prems have "j < length zs" by simp
    from Cons.IH [OF this, of "num_add prev (num_mul sq z)"] Suc show ?thesis by simp
  qed
qed

lemma simulate_loop_normals:
  "normals k st = Some (zs, st') \<Longrightarrow> k = nat (n - i) \<Longrightarrow>
     simulate_loop i n sq cur pv st =
       Some (\<lparr>path_values = pv @ positions sq cur zs,
              final_value = last (cur # positions sq cur zs)\<rparr>, st')"
proof (induction k arbitrary: st zs i cur pv)
  case 0
  then have "\<not> i < n" by simp
  with 0 show ?case by (subst simulate_loop.simps) simp
next
  case (Suc k)
  hence lt: "i < n" by simp
  from Suc.prems(1) obtain z st1 zs1 where
    g: "generateStandardNormal st = Some (z, st1)" and
    r: "normals k st1 = Some (zs1, st')" and zs: "zs = z # zs1"
    by (auto split: option.splits)
  have k: "k = nat (n - (i + 1))" using Suc.prems(2) by simp
  from Suc.IH [OF r k, of "num_add cur (num_mul sq z)" "pv @ [num_add cur (num_mul sq z)]"]
  show ?case using lt g zs
    by (subst simulate_loop.simps) (simp add: Let_def)
qed

lemma length_normals: "normals k st = Some (zs, st') \<Longrightarrow> length zs = k"
  by (induction k arbitrary: st zs) (auto split: option.splits)

text \<open>
  C2: when the generator returns the variates \<open>Z\<^sub>1 \<dots> Z\<^sub>n\<close> (the list \<open>zs\<close>) to the \<open>n\<close>
  iterations, \<open>simulateBrownianMotion(T, n)\<close> returns a path of \<open>n\<close> positions with
  \<open>position[i] = position[i-1] + sqrt(dt) Z\<^sub>i\<close>, where \<open>position[-1]\<close> is 0 and \<open>dt = T/n\<close>:
  each position is the running sum of the scaled increments up to its index.
\<close>

theorem simulateBrownianMotion_recurrence:
  assumes "normals (nat n) st = Some (zs, st')"
  shows "\<exists>p. simulateBrownianMotion T n st =
              Some (\<lparr>path_values = p, final_value = last (Num 0 # p)\<rparr>, st')
     \<and> length p = nat n
     \<and> (\<forall>i<nat n. p ! i =
           num_add (if i = 0 then Num 0 else p ! (i - 1))
                   (num_mul (Math_sqrt (num_div T (Num (of_int n)))) (zs ! i)))
     \<and> (\<forall>i<nat n. p ! i =
           foldl num_add (Num 0)
             (map (num_mul (Math_sqrt (num_div T (Num (of_int n))))) (take (Suc i) zs)))"
proof -
  let ?sq = "Math_sqrt (num_div T (Num (of_int n)))"
  let ?p = "positions ?sq (Num 0) zs"
  have len: "length zs = nat n" using assms by (rule length_normals)
  have "simulateBrownianMotion T n st =
      Some (\<lparr>path_values = ?p, final_value = last (Num 0 # ?p)\<rparr>, st')"
    using simulate_loop_normals [OF assms, of n 0 ?sq "Num 0" "[]"]
    by (simp add: simulateBrownianMotion_def Let_def)
  moreover have "length ?p = nat n" using len by simp
  moreover have "\<forall>i<nat n. ?p ! i =
      num_add (if i = 0 then Num 0 else ?p ! (i - 1)) (num_mul ?sq (zs ! i))"
    using len by (simp add: positions_nth)
  moreover have "\<forall>i<nat n. ?p ! i =
      foldl num_add (Num 0) (map (num_mul ?sq) (take (Suc i) zs))"
    using len by (simp add: positions_nth_foldl del: take_Suc_Cons)
  ultimately show ?thesis by blast
qed

lemma normals_st_cached:
  "normals 2 st_cached =
     Some ([Num 3, Num (- sqrt (2 * ln 2))],
           \<lparr>hasSecondBoxMuller = True, secondBoxMullerValue = Num 0,
            Math_random = sconst (1/2)\<rparr>)"
proof -
  have 1: "generateStandardNormal st_cached =
      Some (Num 3, \<lparr>hasSecondBoxMuller = False, secondBoxMullerValue = Num 3,
                    Math_random = sconst (1/2)\<rparr>)"
    by (simp add: generateStandardNormal_cached st_cached_def)
  have 2: "generateStandardNormal \<lparr>hasSecondBoxMuller = False, secondBoxMullerValue = Num 3,
                    Math_random = sconst (1/2)\<rparr> =
      Some (Num (- sqrt (2 * ln 2)),
            \<lparr>hasSecondBoxMuller = True, secondBoxMullerValue = Num 0,
             Math_random = sconst (1/2)\<rparr>)"
    by (subst generateStandardNormal_fresh [where k = 0])
       (simp_all add: Math_PI_def ln_div numeral_2_eq_2)
  show ?thesis
    by (simp add: numeral_2_eq_2 1 2)
qed

theorem simulateBrownianMotion_recurrence_witness:
  "normals (nat 2) st_cached =
     Some ([Num 3, Num (- sqrt (2 * ln 2))],
           \<lparr>hasSecondBoxMuller = True, secondBoxMullerValue = Num 0,
            Math_random = sconst (1/2)\<rparr>)
   \<and> (\<exists>p. simulateBrownianMotion (Num 8) 2 st_cached =
             Some (\<lparr>path_values = p, final_value = last (Num 0 # p)\<rparr>,
                   \<lparr>hasSecondBoxMuller = True, secondBoxMullerValue = Num 0,
                    Math_random = sconst (1/2)\<rparr>)
          \<and> length p = 2 \<and> p ! 0 = Num 6 \<and> p ! 1 = Num (6 - 2 * sqrt (2 * ln 2)))"
proof -
  have n: "normals (nat 2) st_cached =
     Some ([Num 3, Num (- sqrt (2 * ln 2))],
           \<lparr>hasSecondBoxMuller = True, secondBoxMullerValue = Num 0,
            Math_random = sconst (1/2)\<rparr>)"
    using normals_st_cached by simp
  have sq: "Math_sqrt (num_div (Num 8) (Num (of_int 2))) = Num 2"
    by simp
  from simulateBrownianMotion_recurrence [OF n, of "Num 8"] obtain p where
    p: "simulateBrownianMotion (Num 8) 2 st_cached =
             Some (\<lparr>path_values = p, final_value = last (Num 0 # p)\<rparr>,
                   \<lparr>hasSecondBoxMuller = True, secondBoxMullerValue = Num 0,
                    Math_random = sconst (1/2)\<rparr>)"
      "length p = nat 2"
      "\<forall>i<nat 2. p ! i = num_add (if i = 0 then Num 0 else p ! (i - 1))
                   (num_mul (Math_sqrt (num_div (Num 8) (Num (of_int 2)))) ([Num 3, Num (- sqrt (2 * ln 2))] ! i))"
    by blast
  from p(3) have p0: "p ! 0 = Num 6" unfolding sq by simp
  from p(3) have "p ! 1 = num_add (p ! 0) (num_mul (Num 2) (Num (- sqrt (2 * ln 2))))"
    unfolding sq by simp
  hence p1: "p ! 1 = Num (6 - 2 * sqrt (2 * ln 2))" unfolding p0 by simp
  from n p(1,2) p0 p1 show ?thesis by simp
qed

lemma recurring_nonzero_sdrop:
  assumes "recurring_nonzero s"
  shows "recurring_nonzero (sdrop m s)"
  unfolding recurring_nonzero_def
proof
  fix k
  from assms obtain j where j: "m + k \<le> j" "s !! j \<noteq> 0"
    unfolding recurring_nonzero_def by blast
  hence "k \<le> j - m" "sdrop m s !! (j - m) \<noteq> 0" by (simp_all add: sdrop_snth)
  thus "\<exists>j. k \<le> j \<and> sdrop m s !! j \<noteq> 0" by blast
qed

lemma unit_interval_sdrop: "unit_interval s \<Longrightarrow> unit_interval (sdrop m s)"
  by (simp add: unit_interval_def sdrop_snth)

lemma generateStandardNormal_valid:
  assumes "valid_state st"
  shows "\<exists>z st'. generateStandardNormal st = Some (z, st') \<and> is_finite z \<and> valid_state st'"
proof (cases "hasSecondBoxMuller st")
  case True
  with assms have "is_finite (secondBoxMullerValue st)"
    "valid_state (st\<lparr>hasSecondBoxMuller := False\<rparr>)"
    by (simp_all add: valid_state_def)
  with generateStandardNormal_cached [OF True] show ?thesis by blast
next
  case False
  let ?s = "Math_random st"
  from assms have u: "unit_interval ?s" and r: "recurring_nonzero ?s"
    by (simp_all add: valid_state_def)
  from r have "\<exists>k. ?s !! k \<noteq> 0" unfolding recurring_nonzero_def by blast
  from first_nonzero [OF this] obtain k where k: "\<forall>j<k. ?s !! j = 0" "?s !! k \<noteq> 0" by blast
  from u k(2) have pos: "0 < ?s !! k" "?s !! k < 1"
    unfolding unit_interval_def by (simp_all add: less_le)
  hence "ln (?s !! k) < 0" by simp
  hence R: "Math_sqrt (num_mul (Num (- 2)) (Math_log (Num (?s !! k)))) =
      Num (sqrt (- 2 * ln (?s !! k)))"
    using pos by simp
  let ?st' = "\<lparr>hasSecondBoxMuller = True,
           secondBoxMullerValue =
             num_mul (Math_sqrt (num_mul (Num (- 2)) (Math_log (Num (?s !! k)))))
               (Math_sin (num_mul (num_mul (Num 2) Math_PI) (Num (?s !! Suc k)))),
           Math_random = sdrop (k + 2) ?s\<rparr>"
  have "is_finite (secondBoxMullerValue ?st')"
    unfolding R by (simp add: Math_PI_def)
  moreover have "unit_interval (Math_random ?st')" "recurring_nonzero (Math_random ?st')"
    using u r by (simp_all add: unit_interval_sdrop recurring_nonzero_sdrop del: sdrop.simps)
  ultimately have "valid_state ?st'"
    unfolding valid_state_def by blast
  moreover have "is_finite (num_mul (Math_sqrt (num_mul (Num (- 2)) (Math_log (Num (?s !! k)))))
            (Math_cos (num_mul (num_mul (Num 2) Math_PI) (Num (?s !! Suc k)))))"
    unfolding R by (simp add: Math_PI_def)
  ultimately show ?thesis
    using generateStandardNormal_fresh [OF False k] by blast
qed

lemma normals_valid:
  "valid_state st \<Longrightarrow>
     \<exists>zs st'. normals k st = Some (zs, st') \<and> list_all is_finite zs \<and> valid_state st'"
proof (induction k arbitrary: st)
  case 0
  then show ?case by simp
next
  case (Suc k)
  from generateStandardNormal_valid [OF Suc.prems] obtain z st1 where
    g: "generateStandardNormal st = Some (z, st1)" "is_finite z" "valid_state st1" by blast
  from Suc.IH [OF g(3)] obtain zs st' where
    n: "normals k st1 = Some (zs, st')" "list_all is_finite zs" "valid_state st'" by blast
  from g n have "normals (Suc k) st = Some (z # zs, st')" "list_all is_finite (z # zs)"
    by simp_all
  with n(3) show ?case by blast
qed

lemma is_finite_add_mul:
  "is_finite sq \<Longrightarrow> is_finite prev \<Longrightarrow> is_finite z \<Longrightarrow> is_finite (num_add prev (num_mul sq z))"
  by (cases sq; cases prev; cases z) simp_all

lemma positions_finite:
  "is_finite sq \<Longrightarrow> is_finite prev \<Longrightarrow> list_all is_finite zs \<Longrightarrow>
     list_all is_finite (positions sq prev zs)"
  by (induction zs arbitrary: prev) (simp_all add: is_finite_add_mul)

lemma simulateBrownianMotion_valid:
  assumes "valid_state st"
  shows "\<exists>zs st'. normals (nat n) st = Some (zs, st') \<and> list_all is_finite zs \<and> valid_state st'
    \<and> simulateBrownianMotion T n st =
        Some (\<lparr>path_values = positions (Math_sqrt (num_div T (Num (of_int n)))) (Num 0) zs,
               final_value =
                 last (Num 0 # positions (Math_sqrt (num_div T (Num (of_int n)))) (Num 0) zs)\<rparr>,
              st')"
proof -
  from normals_valid [OF assms, of "nat n"] obtain zs st' where
    n: "normals (nat n) st = Some (zs, st')" "list_all is_finite zs" "valid_state st'" by blast
  have "simulateBrownianMotion T n st =
        Some (\<lparr>path_values = positions (Math_sqrt (num_div T (Num (of_int n)))) (Num 0) zs,
               final_value =
                 last (Num 0 # positions (Math_sqrt (num_div T (Num (of_int n)))) (Num 0) zs)\<rparr>,
              st')"
    using simulate_loop_normals [OF n(1), of n 0 _ "Num 0" "[]"]
    by (simp add: simulateBrownianMotion_def Let_def)
  with n show ?thesis by blast
qed

text \<open>
  C1: for every finite \<open>T > 0\<close> and integer \<open>n \<ge> 1\<close>, from a reachable generator state,
  \<open>simulateBrownianMotion(T, n)\<close> returns, its path has exactly \<open>n\<close> elements, and
  \<open>path[n-1] == final\<close>.
\<close>

theorem simulateBrownianMotion_length_final:
  assumes "0 < T" "1 \<le> n" "valid_state st"
  shows "\<exists>p f st'. simulateBrownianMotion (Num T) n st =
                     Some (\<lparr>path_values = p, final_value = f\<rparr>, st')
           \<and> length p = nat n \<and> strict_eq (p ! (nat n - 1)) f"
proof -
  let ?sq = "Math_sqrt (num_div (Num T) (Num (of_int n)))"
  from simulateBrownianMotion_valid [OF assms(3), of n "Num T"] obtain zs st' where
    n: "normals (nat n) st = Some (zs, st')" "list_all is_finite zs"
    and s: "simulateBrownianMotion (Num T) n st =
        Some (\<lparr>path_values = positions ?sq (Num 0) zs,
               final_value = last (Num 0 # positions ?sq (Num 0) zs)\<rparr>, st')"
    by blast
  let ?p = "positions ?sq (Num 0) zs"
  have len: "length ?p = nat n" using length_normals [OF n(1)] by simp
  have ne: "?p \<noteq> []"
  proof
    assume "?p = []"
    hence "length ?p = 0" by (simp only: list.size)
    with len assms(2) show False by simp
  qed
  have "is_finite ?sq" using assms(1,2) by (simp add: not_less divide_nonneg_nonneg)
  hence fin: "list_all is_finite ?p" using n(2) by (simp add: positions_finite)
  have l: "last (Num 0 # ?p) = ?p ! (nat n - 1)"
    using ne len by (simp add: last_conv_nth)
  have "nat n - 1 < length ?p" using len assms(2) by simp
  with fin have "is_finite (?p ! (nat n - 1))" by (simp add: list_all_length)
  hence "strict_eq (?p ! (nat n - 1)) (last (Num 0 # ?p))"
    unfolding l by (cases "?p ! (nat n - 1)") simp_all
  with s len show ?thesis by blast
qed


lemma valid_state_st_cached: "valid_state st_cached"
  by (simp add: valid_state_def st_cached_def unit_interval_def recurring_nonzero_def) blast

theorem simulateBrownianMotion_length_final_witness:
  "(0::real) < 8 \<and> (1::int) \<le> 2 \<and> valid_state st_cached
   \<and> (\<exists>p f st'. simulateBrownianMotion (Num 8) 2 st_cached =
                     Some (\<lparr>path_values = p, final_value = f\<rparr>, st')
           \<and> length p = 2 \<and> strict_eq (p ! 1) f)"
  using simulateBrownianMotion_length_final [of 8 2 st_cached] valid_state_st_cached
  by simp

section \<open>Properties of the final distribution\<close>

text \<open>
  After the two clamps a bin index is \<open>NaN\<close> or one of the 20 indices, so
  \<open>array_incr\<close> never meets another key.
\<close>

lemma bin_index_cases:
  "bin_index 20 val min_val binWidth = NaN
   \<or> (\<exists>j<20. bin_index 20 val min_val binWidth = Num (real j))"
proof (cases "Math_floor (num_div (num_sub val min_val) binWidth)")
  case NaN
  thus ?thesis by (simp add: bin_index_def num_ge_def strict_eq_def)
next
  case PosInfinity
  hence "bin_index 20 val min_val binWidth = Num (real (19::nat))"
    by (simp add: bin_index_def num_ge_def)
  thus ?thesis by (intro disjI2 exI [of _ 19]) simp
next
  case NegInfinity
  hence "bin_index 20 val min_val binWidth = Num (real (0::nat))"
    by (simp add: bin_index_def num_ge_def strict_eq_def)
  thus ?thesis by (intro disjI2 exI [of _ 0]) simp
next
  case (Num r)
  then obtain q where "num_div (num_sub val min_val) binWidth = Num q" "r = of_int \<lfloor>q\<rfloor>"
    by (cases "num_div (num_sub val min_val) binWidth") simp_all
  define f where "f = \<lfloor>q\<rfloor>"
  have fl: "Math_floor (num_div (num_sub val min_val) binWidth) = Num (of_int f)"
    using Num \<open>r = of_int \<lfloor>q\<rfloor>\<close> by (simp add: f_def)
  consider "20 \<le> f" | "f < 0" | "0 \<le> f" "f < 20" by linarith
  then show ?thesis
  proof cases
    case 1
    hence "bin_index 20 val min_val binWidth = Num (real (19::nat))"
      unfolding bin_index_def Let_def fl by (simp add: num_ge_def)
    thus ?thesis by (intro disjI2 exI [of _ 19]) simp
  next
    case 2
    hence "bin_index 20 val min_val binWidth = Num (real (0::nat))"
      unfolding bin_index_def Let_def fl by (simp add: num_ge_def)
    thus ?thesis by (intro disjI2 exI [of _ 0]) simp
  next
    case 3
    hence "bin_index 20 val min_val binWidth = Num (real (nat f))"
      unfolding bin_index_def Let_def fl by (simp add: num_ge_def)
    moreover have "nat f < 20" using 3 by simp
    ultimately show ?thesis by blast
  qed
qed

lemma bin_index_degenerate: "bin_index b (Num v) (Num v) (Num 0) = NaN"
  by (simp add: bin_index_def num_sub_def num_ge_def strict_eq_def)

lemma foldl_degenerate:
  "foldl (\<lambda>h val. array_incr h (bin_index b val (Num v) (Num 0))) h0 (replicate k (Num v)) = h0"
  by (induction k) (simp_all add: bin_index_degenerate)

lemma map_replicate_nth:
  "map (\<lambda>i. f (replicate n c ! i)) [0..<n] = replicate n (f c)"
  by (rule nth_equalityI) simp_all

lemma renderFinalDistribution_degenerate:
  "histogram (renderFinalDistribution T m_runs (replicate k (Num v)) (Num v) (Num v))
     = replicate 20 0
   \<and> observed_densities (renderFinalDistribution T m_runs (replicate k (Num v)) (Num v) (Num v))
     = replicate 20 NaN"
proof -
  have w: "num_div (num_sub (Num v) (Num v)) (Num (real (20::nat))) = Num 0"
    by (simp add: num_sub_def)
  have d: "num_div (num_div (Num (real (0::nat))) (Num (of_int m_runs))) (Num 0) = NaN"
    by simp
  have h: "histogram (renderFinalDistribution T m_runs (replicate k (Num v)) (Num v) (Num v))
     = replicate 20 0"
    unfolding renderFinalDistribution_def Let_def w foldl_degenerate by simp
  have "observed_densities (renderFinalDistribution T m_runs (replicate k (Num v)) (Num v) (Num v))
     = map (\<lambda>i. num_div (num_div (Num (real (replicate 20 (0::nat) ! i))) (Num (of_int m_runs)))
                (Num 0)) [0..<20]"
    unfolding renderFinalDistribution_def Let_def w foldl_degenerate by simp
  also have "\<dots> = replicate 20 (num_div (num_div (Num (real (0::nat))) (Num (of_int m_runs))) (Num 0))"
    by (rule map_replicate_nth)
  finally show ?thesis using h unfolding d by simp
qed

text \<open>
  C3 asks that an ensemble whose values are all equal ends with every sample counted in
  one bin and no \<open>NaN\<close> in the histogram or the densities. The script has no such case:
  for the hundred terminal values 0 with \<open>min = max = 0\<close> the bin width is 0, every bin
  index is \<open>NaN\<close>, no bin is incremented, and each observed density is \<open>0/0\<close>.
\<close>

theorem degenerate_ensemble_no_bin:
  "histogram (renderFinalDistribution (Num 0) 100 zero_ensemble (Num 0) (Num 0)) = replicate 20 0
   \<and> observed_densities (renderFinalDistribution (Num 0) 100 zero_ensemble (Num 0) (Num 0))
       = replicate 20 NaN"
  unfolding zero_ensemble_def by (rule renderFinalDistribution_degenerate)

lemma foldl_num_add_NaN: "foldl num_add NaN xs = NaN"
  by (induction xs) simp_all

lemma bin_index_range:
  assumes "0 < w" "\<not> isNaN val"
  shows "\<exists>j<20. bin_index 20 val (Num a) (Num w) = Num (real j)"
proof (cases val)
  case NaN
  with assms show ?thesis by simp
next
  case PosInfinity
  hence "bin_index 20 val (Num a) (Num w) = Num (real (19::nat))"
    using assms(1) by (simp add: bin_index_def num_sub_def signed_inf_def num_ge_def)
  thus ?thesis by (intro exI [of _ 19]) simp
next
  case NegInfinity
  hence "bin_index 20 val (Num a) (Num w) = Num (real (0::nat))"
    using assms(1) by (simp add: bin_index_def num_sub_def signed_inf_def num_ge_def strict_eq_def)
  thus ?thesis by (intro exI [of _ 0]) simp
next
  case (Num v)
  define f where "f = \<lfloor>(v - a) / w\<rfloor>"
  have fl: "Math_floor (num_div (num_sub val (Num a)) (Num w)) = Num (of_int f)"
    using assms(1) Num by (simp add: num_sub_def f_def)
  consider "20 \<le> f" | "f < 0" | "0 \<le> f" "f < 20" by linarith
  then show ?thesis
  proof cases
    case 1
    hence "bin_index 20 val (Num a) (Num w) = Num (real (19::nat))"
      unfolding bin_index_def Let_def fl by (simp add: num_ge_def)
    thus ?thesis by (intro exI [of _ 19]) simp
  next
    case 2
    hence "bin_index 20 val (Num a) (Num w) = Num (real (0::nat))"
      unfolding bin_index_def Let_def fl by (simp add: num_ge_def)
    thus ?thesis by (intro exI [of _ 0]) simp
  next
    case 3
    hence "bin_index 20 val (Num a) (Num w) = Num (real (nat f))"
      unfolding bin_index_def Let_def fl by (simp add: num_ge_def)
    moreover have "nat f < 20" using 3 by simp
    ultimately show ?thesis by blast
  qed
qed

lemma array_incr_index:
  "j < length h \<Longrightarrow> array_incr h (Num (real j)) = h[j := h ! j + 1]"
  by simp

lemma sum_list_incr:
  fixes h :: "nat list"
  assumes "j < length h"
  shows "sum_list (h[j := h ! j + 1]) = sum_list h + 1"
proof -
  have "h ! j \<le> sum_list h" using assms by (simp add: member_le_sum_list)
  thus ?thesis using assms by (simp add: sum_list_update)
qed

lemma foldl_counts:
  assumes "0 < w" "\<forall>v\<in>set vs. \<not> isNaN v" "length h = 20"
  shows "length (foldl (\<lambda>h val. array_incr h (bin_index 20 val (Num a) (Num w))) h vs) = 20
       \<and> sum_list (foldl (\<lambda>h val. array_incr h (bin_index 20 val (Num a) (Num w))) h vs)
           = sum_list h + length vs"
  using assms(2,3)
proof (induction vs arbitrary: h)
  case Nil
  then show ?case by simp
next
  case (Cons v vs)
  from Cons.prems(1) have "\<not> isNaN v" by simp
  from bin_index_range [OF assms(1) this, of a] obtain j where
    j: "j < 20" "bin_index 20 v (Num a) (Num w) = Num (real j)" by blast
  let ?h = "h[j := h ! j + 1]"
  have step: "array_incr h (bin_index 20 v (Num a) (Num w)) = ?h"
    unfolding j(2) using j(1) Cons.prems(2) by (intro array_incr_index) simp
  have "length ?h = 20" using Cons.prems(2) by simp
  moreover have "\<forall>v\<in>set vs. \<not> isNaN v" using Cons.prems(1) by simp
  ultimately have "length (foldl (\<lambda>h val. array_incr h (bin_index 20 val (Num a) (Num w))) ?h vs) = 20
       \<and> sum_list (foldl (\<lambda>h val. array_incr h (bin_index 20 val (Num a) (Num w))) ?h vs)
           = sum_list ?h + length vs"
    by (intro Cons.IH)
  moreover have "sum_list ?h = sum_list h + 1"
    using j(1) Cons.prems(2) by (intro sum_list_incr) simp
  ultimately show ?case by (simp add: step)
qed

lemma renderFinalDistribution_counts:
  assumes "a < b" "\<forall>v\<in>set vs. \<not> isNaN v"
  shows "length (histogram (renderFinalDistribution T m_runs vs (Num a) (Num b))) = 20
       \<and> sum_list (histogram (renderFinalDistribution T m_runs vs (Num a) (Num b))) = length vs"
proof -
  have w: "num_div (num_sub (Num b) (Num a)) (Num (real (20::nat))) = Num ((b - a) / 20)"
    by (simp add: num_sub_def)
  have "0 < (b - a) / 20" using assms(1) by simp
  from foldl_counts [OF this assms(2), of "replicate 20 0" a]
  show ?thesis
    unfolding renderFinalDistribution_def Let_def w by simp
qed

lemma foldl_num_add_Num:
  "foldl num_add (Num s) (map (\<lambda>i. Num (g i)) xs) = Num (s + sum_list (map g xs))"
  by (induction xs arbitrary: s) (simp_all add: add.assoc)

lemma renderFinalDistribution_density_sum:
  assumes "a < b" "\<forall>v\<in>set vs. \<not> isNaN v" "vs \<noteq> []"
  shows "foldl num_add (Num 0)
           (map (\<lambda>d. num_mul d (num_div (num_sub (Num b) (Num a)) (Num 20)))
              (observed_densities
                 (renderFinalDistribution T (int (length vs)) vs (Num a) (Num b))))
         = Num 1"
proof -
  let ?w = "(b - a) / 20"
  let ?m = "real (length vs)"
  let ?h = "histogram (renderFinalDistribution T (int (length vs)) vs (Num a) (Num b))"
  have w: "num_div (num_sub (Num b) (Num a)) (Num (real (20::nat))) = Num ?w"
          "num_div (num_sub (Num b) (Num a)) (Num 20) = Num ?w"
    by (simp_all add: num_sub_def)
  have wpos: "?w \<noteq> 0" using assms(1) by simp
  have mpos: "?m \<noteq> 0" using assms(3) by simp
  from renderFinalDistribution_counts [OF assms(1,2), of T "int (length vs)"]
  have len: "length ?h = 20" and total: "sum_list ?h = length vs" by simp_all
  have obs: "observed_densities (renderFinalDistribution T (int (length vs)) vs (Num a) (Num b))
      = map (\<lambda>i. Num (real (?h ! i) / ?m / ?w)) [0..<20]"
    unfolding renderFinalDistribution_def Let_def w using wpos mpos by simp
  have "foldl num_add (Num 0)
           (map (\<lambda>d. num_mul d (Num ?w)) (map (\<lambda>i. Num (real (?h ! i) / ?m / ?w)) [0..<20]))
      = foldl num_add (Num 0) (map (\<lambda>i. Num (real (?h ! i) / ?m)) [0..<20])"
    using wpos by (simp add: comp_def)
  also have "\<dots> = Num (0 + sum_list (map (\<lambda>i. real (?h ! i) / ?m) [0..<20]))"
    by (rule foldl_num_add_Num)
  also have "sum_list (map (\<lambda>i. real (?h ! i) / ?m) [0..<20])
      = (\<Sum>i = 0..<20. real (?h ! i)) / ?m"
    by (simp add: interv_sum_list_conv_sum_set_nat sum_divide_distrib)
  also have "(\<Sum>i = 0..<20. real (?h ! i)) = real (sum_list ?h)"
    using len by (simp add: sum_list_sum_nth)
  finally show ?thesis
    unfolding obs w using total mpos by simp
qed

text \<open>
  C5 asks that the 20 counts of every ensemble of \<open>m\<close> values sum to \<open>m\<close> and that the
  observed densities times the bin width sum to 1. For the hundred terminal values 0 the
  script leaves 20 counts that sum to 0, and the sum of density times bin width is \<open>NaN\<close>.
  (For finite values with \<open>min < max\<close> the two sums are \<open>m\<close> and 1 in exact arithmetic,
  where the bin width and the quotients are not rounded: \<open>renderFinalDistribution_counts\<close>
  and \<open>renderFinalDistribution_density_sum\<close> above. In binary64 a bin width that
  underflows to 0 or overflows gives the behaviour shown here.)
\<close>

theorem degenerate_ensemble_counts_sum:
  "length zero_ensemble = 100
   \<and> length (histogram (renderFinalDistribution (Num 0) 100 zero_ensemble (Num 0) (Num 0))) = 20
   \<and> sum_list (histogram (renderFinalDistribution (Num 0) 100 zero_ensemble (Num 0) (Num 0))) = 0
   \<and> foldl num_add (Num 0)
        (map (\<lambda>d. num_mul d (num_div (num_sub (Num 0) (Num 0)) (Num 20)))
           (observed_densities (renderFinalDistribution (Num 0) 100 zero_ensemble (Num 0) (Num 0))))
       = NaN"
proof -
  have "replicate 20 NaN = NaN # replicate 19 NaN" by (simp add: numeral_Bit0 numeral_Bit1)
  thus ?thesis
    using renderFinalDistribution_degenerate [of "Num 0" 100 100 0]
    by (simp add: zero_ensemble_def foldl_num_add_NaN)
qed

section \<open>Properties of the main function\<close>

lemma valid_state_st_initial: "valid_state st_initial"
  by (simp add: valid_state_def st_initial_def unit_interval_def recurring_nonzero_def) blast

lemma positions_zero:
  "list_all is_finite zs \<Longrightarrow> positions (Num 0) (Num 0) zs = replicate (length zs) (Num 0)"
proof (induction zs)
  case Nil
  then show ?case by simp
next
  case (Cons z zs)
  then obtain r where "z = Num r" by (cases z) simp_all
  with Cons show ?case by simp
qed

lemma simulateBrownianMotion_zero_T:
  assumes "valid_state st" "1 \<le> n"
  shows "\<exists>st'. simulateBrownianMotion (Num 0) n st =
            Some (\<lparr>path_values = replicate (nat n) (Num 0), final_value = Num 0\<rparr>, st')
          \<and> valid_state st'"
proof -
  have sq: "Math_sqrt (num_div (Num 0) (Num (of_int n))) = Num 0"
    using assms(2) by simp
  from simulateBrownianMotion_valid [OF assms(1), of n "Num 0"] obtain zs st' where
    n: "normals (nat n) st = Some (zs, st')" "list_all is_finite zs" "valid_state st'"
    and s: "simulateBrownianMotion (Num 0) n st =
        Some (\<lparr>path_values = positions (Num 0) (Num 0) zs,
               final_value = last (Num 0 # positions (Num 0) (Num 0) zs)\<rparr>, st')"
    unfolding sq by blast
  have "length zs = nat n" using n(1) by (rule length_normals)
  hence "positions (Num 0) (Num 0) zs = replicate (nat n) (Num 0)"
    using positions_zero [OF n(2)] by simp
  with s n(3) show ?thesis by auto
qed

lemma ensemble_loop_zero_T:
  assumes "1 \<le> n"
  shows "valid_state st \<Longrightarrow> k = nat (m_runs - i) \<Longrightarrow>
     min_val = PosInfinity \<or> min_val = Num 0 \<Longrightarrow> max_val = NegInfinity \<or> max_val = Num 0 \<Longrightarrow>
     \<exists>st'. ensemble_loop i m_runs (Num 0) n fv min_val max_val st =
             Some ((fv @ replicate k (Num 0),
                    if k = 0 then min_val else Num 0,
                    if k = 0 then max_val else Num 0), st')
           \<and> valid_state st'"
proof (induction k arbitrary: st i fv min_val max_val)
  case 0
  hence "\<not> i < m_runs" by simp
  with 0 show ?case by (subst ensemble_loop.simps) simp
next
  case (Suc k)
  hence lt: "i < m_runs" by simp
  from simulateBrownianMotion_zero_T [OF Suc.prems(1) assms] obtain st1 where
    s: "simulateBrownianMotion (Num 0) n st =
            Some (\<lparr>path_values = replicate (nat n) (Num 0), final_value = Num 0\<rparr>, st1)"
    and v: "valid_state st1" by blast
  have k: "k = nat (m_runs - (i + 1))" using Suc.prems(2) by simp
  let ?mn = "if num_lt (Num 0) min_val then Num 0 else min_val"
  let ?mx = "if num_gt (Num 0) max_val then Num 0 else max_val"
  have mn: "?mn = Num 0" using Suc.prems(3) by auto
  have mx: "?mx = Num 0" using Suc.prems(4) by (auto simp: num_gt_def)
  from Suc.IH [OF v k, of "Num 0" "Num 0" "fv @ [Num 0]"] obtain st' where
    r: "ensemble_loop (i + 1) m_runs (Num 0) n (fv @ [Num 0]) (Num 0) (Num 0) st1 =
         Some (((fv @ [Num 0]) @ replicate k (Num 0), Num 0, Num 0), st')"
    and v': "valid_state st'" by auto
  have "ensemble_loop i m_runs (Num 0) n fv min_val max_val st =
      ensemble_loop (i + 1) m_runs (Num 0) n (fv @ [Num 0]) ?mn ?mx st1"
    using lt s by (subst ensemble_loop.simps) (simp add: Let_def del: ensemble_loop.simps)
  also have "\<dots> = Some (((fv @ [Num 0]) @ replicate k (Num 0), Num 0, Num 0), st')"
    unfolding mn mx by (rule r)
  finally show ?case using v' by (simp add: replicate_app_Cons_same)
qed

lemma runSimulation_zero_T:
  assumes "valid_state st" "100 \<le> n" "100 \<le> m"
  shows "\<exists>st'. runSimulation (Num 0) (Some n) (Some m) st =
     Some (Rendered (replicate (nat n) (Num 0))
             (renderFinalDistribution (Num 0) m (replicate (nat m) (Num 0)) (Num 0) (Num 0)), st')"
proof -
  have n1: "1 \<le> n" using assms(2) by simp
  from simulateBrownianMotion_zero_T [OF assms(1) n1] obtain st1 where
    s: "simulateBrownianMotion (Num 0) n st =
            Some (\<lparr>path_values = replicate (nat n) (Num 0), final_value = Num 0\<rparr>, st1)"
    and v: "valid_state st1" by blast
  have "nat (m - 0) \<noteq> 0" using assms(3) by simp
  with ensemble_loop_zero_T [OF n1 v, of "nat (m - 0)" m 0 PosInfinity NegInfinity "[]"]
  obtain st' where
    e: "ensemble_loop 0 m (Num 0) n [] PosInfinity NegInfinity st1 =
          Some ((replicate (nat m) (Num 0), Num 0, Num 0), st')"
    by auto
  show ?thesis
    using assms(2,3) s e by (simp add: runSimulation_def)
qed

lemma runSimulation_rejects:
  "runSimulation T n m_runs st = Some (Alert alert_text, st)
     \<longleftrightarrow> (isNaN T \<or> n = None \<or> m_runs = None \<or> the n < 100 \<or> the m_runs < 100)"
  by (auto simp: runSimulation_def split: option.splits prod.splits)

text \<open>
  C4 asks that \<open>T \<le> 0\<close> is rejected before any path is simulated. The guard of
  \<open>runSimulation\<close> tests \<open>T\<close> for \<open>NaN\<close> only, though its alert says that \<open>T\<close> must be
  positive: with \<open>T = 0\<close>, \<open>n = 100\<close> and \<open>m = 100\<close> the single path and the hundred paths
  of the ensemble are simulated and rendered, all at 0. (A missing or too small \<open>n\<close> or
  \<open>m\<close> is rejected: \<open>runSimulation_rejects\<close>.)
\<close>

theorem runSimulation_accepts_zero_T:
  "\<exists>st'. runSimulation (Num 0) (Some 100) (Some 100) st_initial =
     Some (Rendered (replicate 100 (Num 0))
             (renderFinalDistribution (Num 0) 100 zero_ensemble (Num 0) (Num 0)), st')"
  using runSimulation_zero_T [OF valid_state_st_initial, of 100 100]
  by (simp add: zero_ensemble_def)

end
